theory Spec2Isabelle
  imports Complex_Main
begin

text \<open>
  The Monte Carlo tree search of \<open>cot-reflection.ts\<close>: the classes \<open>DialogueState\<close>,
  \<open>MCTSNode\<close> and \<open>MCTS\<close>, embedded as functions on explicit states. The language
  model is outside the program: what its calls return is a parameter of every
  definition that depends on it.
\<close>

section \<open>JavaScript numbers\<close>

text \<open>
  Every number of the program is an IEEE double. The model keeps the three special
  values (\<open>NaN\<close> and the two infinities) and idealises the finite doubles as reals;
  \<open>-0\<close> is identified with \<open>0\<close> (so a nonzero number divided by zero takes the sign of
  the numerator). Sums, products, quotients and square roots of finite numbers are
  exact: their rounding and their overflow are not modelled. \<open>Math.exp\<close> and
  \<open>parseFloat\<close>, whose results leave the range of the doubles on short inputs, do
  overflow and underflow (\<open>fromReal\<close> below). Counters that the program only ever
  increments by one from zero (\<open>visits\<close>, \<open>raveVisits\<close>, \<open>depth\<close>) are natural
  numbers.
\<close>

datatype jsnum = NaN | PInf | NInf | Num real

text \<open>
  The double that stands for a real result, up to rounding inside the range: under
  round-to-nearest a magnitude of at least \<open>2^1024 - 2^970\<close> (the largest double plus
  half a unit in its last place) becomes an infinity, and a magnitude of at most
  \<open>2^-1075\<close> (half the smallest positive double) becomes 0.
\<close>

definition fromReal :: "real \<Rightarrow> jsnum" where
  "fromReal x =
     (if 2 ^ 1024 - 2 ^ 970 \<le> x then PInf
      else if x \<le> - (2 ^ 1024 - 2 ^ 970) then NInf
      else if \<bar>x\<bar> \<le> 1 / 2 ^ 1075 then Num 0
      else Num x)"

fun jneg :: "jsnum \<Rightarrow> jsnum" where
  "jneg NaN = NaN"
| "jneg PInf = NInf"
| "jneg NInf = PInf"
| "jneg (Num a) = Num (- a)"

text \<open>\<open>x + y\<close>\<close>

fun jadd :: "jsnum \<Rightarrow> jsnum \<Rightarrow> jsnum" where
  "jadd NaN y = NaN"
| "jadd x NaN = NaN"
| "jadd PInf NInf = NaN"
| "jadd NInf PInf = NaN"
| "jadd PInf y = PInf"
| "jadd x PInf = PInf"
| "jadd NInf y = NInf"
| "jadd x NInf = NInf"
| "jadd (Num a) (Num b) = Num (a + b)"

definition jsub :: "jsnum \<Rightarrow> jsnum \<Rightarrow> jsnum" where
  "jsub x y = jadd x (jneg y)"

text \<open>\<open>x * y\<close>: zero times an infinity is \<open>NaN\<close>.\<close>

fun jmul :: "jsnum \<Rightarrow> jsnum \<Rightarrow> jsnum" where
  "jmul NaN y = NaN"
| "jmul x NaN = NaN"
| "jmul (Num a) (Num b) = Num (a * b)"
| "jmul (Num a) y = (if a = 0 then NaN else if 0 < a then y else jneg y)"
| "jmul x (Num b) = (if b = 0 then NaN else if 0 < b then x else jneg x)"
| "jmul x y = (if x = y then PInf else NInf)"

text \<open>\<open>x / y\<close>: \<open>0 / 0\<close> and \<open>\<infinity> / \<infinity>\<close> are \<open>NaN\<close>; nothing is raised.\<close>

fun jdiv :: "jsnum \<Rightarrow> jsnum \<Rightarrow> jsnum" where
  "jdiv NaN y = NaN"
| "jdiv x NaN = NaN"
| "jdiv (Num a) (Num b) =
     (if b \<noteq> 0 then Num (a / b)
      else if a = 0 then NaN else if 0 < a then PInf else NInf)"
| "jdiv (Num a) y = Num 0"
| "jdiv x (Num b) = (if 0 \<le> b then x else jneg x)"
| "jdiv x y = NaN"

text \<open>
  \<open>Math.sqrt\<close>, \<open>Math.exp\<close> (\<open>Infinity\<close> on overflow, 0 on underflow), \<open>Math.min\<close>,
  \<open>Math.max\<close>, \<open>x > y\<close>, \<open>Number.isNaN\<close>.
\<close>

fun jsqrt :: "jsnum \<Rightarrow> jsnum" where
  "jsqrt NaN = NaN"
| "jsqrt PInf = PInf"
| "jsqrt NInf = NaN"
| "jsqrt (Num a) = (if a < 0 then NaN else Num (sqrt a))"

fun jexp :: "jsnum \<Rightarrow> jsnum" where
  "jexp NaN = NaN"
| "jexp PInf = PInf"
| "jexp NInf = Num 0"
| "jexp (Num a) = fromReal (exp a)"

fun jgt :: "jsnum \<Rightarrow> jsnum \<Rightarrow> bool" where
  "jgt NaN y = False"
| "jgt x NaN = False"
| "jgt (Num a) (Num b) = (b < a)"
| "jgt PInf y = (y \<noteq> PInf)"
| "jgt x NInf = (x \<noteq> NInf)"
| "jgt x y = False"

fun jmin :: "jsnum \<Rightarrow> jsnum \<Rightarrow> jsnum" where
  "jmin NaN y = NaN"
| "jmin x NaN = NaN"
| "jmin x y = (if jgt x y then y else x)"

fun jmax :: "jsnum \<Rightarrow> jsnum \<Rightarrow> jsnum" where
  "jmax NaN y = NaN"
| "jmax x NaN = NaN"
| "jmax x y = (if jgt y x then y else x)"

fun isNaN :: "jsnum \<Rightarrow> bool" where
  "isNaN NaN = True"
| "isNaN x = False"

text \<open>
  Truthiness of a number that may be \<open>undefined\<close> (\<open>None\<close>), as the operator
  \<open>a || b\<close> reads it: \<open>undefined\<close>, \<open>0\<close> and \<open>NaN\<close> are falsy.
\<close>

fun truthy :: "jsnum option \<Rightarrow> bool" where
  "truthy None = False"
| "truthy (Some NaN) = False"
| "truthy (Some (Num a)) = (a \<noteq> 0)"
| "truthy (Some x) = True"

text \<open>\<open>ToNumber\<close> of a value that may be \<open>undefined\<close>: \<open>undefined\<close> becomes \<open>NaN\<close>.\<close>

fun toNumber :: "jsnum option \<Rightarrow> jsnum" where
  "toNumber None = NaN"
| "toNumber (Some x) = x"

section \<open>Strings\<close>

text \<open>
  Strings are lists of 8-bit characters: the model covers ASCII text. The string
  methods the search uses are written out: \<open>toLowerCase\<close> (on ASCII only the letters
  A to Z change), \<open>includes\<close>, \<open>split\<close> on a one-character separator and \<open>trim\<close>.
\<close>

definition lowerChar :: "char \<Rightarrow> char" where
  "lowerChar c =
     (case map_of (zip ''ABCDEFGHIJKLMNOPQRSTUVWXYZ'' ''abcdefghijklmnopqrstuvwxyz'') c of
        None \<Rightarrow> c
      | Some d \<Rightarrow> d)"

definition toLowerCase :: "string \<Rightarrow> string" where
  "toLowerCase s = map lowerChar s"

fun startsWith :: "string \<Rightarrow> string \<Rightarrow> bool" where
  "startsWith s [] = True"
| "startsWith [] (p # ps) = False"
| "startsWith (c # cs) (p # ps) = (c = p \<and> startsWith cs ps)"

fun includes_str :: "string \<Rightarrow> string \<Rightarrow> bool" where
  "includes_str [] p = (p = [])"
| "includes_str (c # cs) p = (startsWith (c # cs) p \<or> includes_str cs p)"

text \<open>\<open>s.split(sep)\<close> for a separator of one character: never empty, \<open>"".split(",")\<close> is \<open>[""]\<close>.\<close>

fun split_str :: "char \<Rightarrow> string \<Rightarrow> string list" where
  "split_str sep [] = [[]]"
| "split_str sep (c # cs) =
     (if c = sep then [] # split_str sep cs
      else (case split_str sep cs of
              [] \<Rightarrow> [[c]]
            | w # ws \<Rightarrow> (c # w) # ws))"

definition isWhiteSpace :: "char \<Rightarrow> bool" where
  "isWhiteSpace c = (c \<in> set [CHR '' '', CHR 0x09, CHR 0x0A, CHR 0x0B, CHR 0x0C, CHR 0x0D])"

definition trim :: "string \<Rightarrow> string" where
  "trim s = rev (dropWhile isWhiteSpace (rev (dropWhile isWhiteSpace s)))"

subsection \<open>\<open>Number.parseFloat\<close>\<close>

text \<open>
  \<open>parseFloat\<close> skips leading white space and reads the longest prefix that is a decimal
  literal: an optional sign, then \<open>Infinity\<close>, or digits with an optional fraction, or a
  fraction alone, each with an optional exponent. With no such prefix the result is
  \<open>NaN\<close>; it never raises. The value is the double that stands for the decimal: a
  literal beyond the range of the doubles, such as \<open>1e400\<close>, is \<open>Infinity\<close>, and one
  below it, such as \<open>1e-400\<close>, is 0.
\<close>

definition isDigit :: "char \<Rightarrow> bool" where
  "isDigit c = (c \<in> set ''0123456789'')"

definition digitsValue :: "string \<Rightarrow> nat" where
  "digitsValue ds = foldl (\<lambda>n c. 10 * n + (of_char c - 48)) 0 ds"

text \<open>The exponent part \<open>e\<close>, \<open>e+\<close> or \<open>e-\<close> followed by at least one digit; otherwise no exponent.\<close>

definition exponentPart :: "string \<Rightarrow> int" where
  "exponentPart r =
     (case r of
        [] \<Rightarrow> 0
      | e # r' \<Rightarrow>
          if e = CHR ''e'' \<or> e = CHR ''E'' then
            (case r' of
               [] \<Rightarrow> 0
             | s # r'' \<Rightarrow>
                 if s = CHR ''-'' then
                   (if takeWhile isDigit r'' = [] then 0
                    else - int (digitsValue (takeWhile isDigit r'')))
                 else if s = CHR ''+'' then int (digitsValue (takeWhile isDigit r''))
                 else int (digitsValue (takeWhile isDigit r')))
          else 0)"

definition unsignedLiteral :: "string \<Rightarrow> jsnum option" where
  "unsignedLiteral r =
     (let ip = takeWhile isDigit r;
          r1 = dropWhile isDigit r;
          fp = (case r1 of [] \<Rightarrow> [] | d # r' \<Rightarrow> if d = CHR ''.'' then takeWhile isDigit r' else []);
          r2 = (case r1 of [] \<Rightarrow> [] | d # r' \<Rightarrow> if d = CHR ''.'' then dropWhile isDigit r' else r1)
      in if ip = [] \<and> fp = [] then None
         else Some (fromReal ((real (digitsValue ip) + real (digitsValue fp) / 10 ^ length fp)
                                * 10 powi exponentPart r2)))"

definition parseFloat :: "string \<Rightarrow> jsnum" where
  "parseFloat s =
     (let t = dropWhile isWhiteSpace s;
          negative = (case t of [] \<Rightarrow> False | c # _ \<Rightarrow> c = CHR ''-'');
          r = (case t of [] \<Rightarrow> [] | c # r' \<Rightarrow> if c = CHR ''-'' \<or> c = CHR ''+'' then r' else t)
      in if startsWith r ''Infinity'' then (if negative then NInf else PInf)
         else (case unsignedLiteral r of
                 None \<Rightarrow> NaN
               | Some v \<Rightarrow> if negative then jneg v else v))"

section \<open>Data model\<close>

datatype role = User | Assistant

record CoreMessage =
  role :: role
  content :: string

text \<open>
  \<open>EvaluationMetrics\<close>: a field is \<open>None\<close> when the program stores \<open>undefined\<close> in it.
\<close>

record EvaluationMetrics =
  coherence :: "jsnum option"
  relevance :: "jsnum option"
  engagement :: "jsnum option"

record DialogueState =
  conversationHistory :: "CoreMessage list"
  systemPrompt :: string
  currentQuery :: string
  depth :: nat
  metrics :: "EvaluationMetrics option"

text \<open>\<open>DialogueState.create(systemPrompt, history, query)\<close> with the default depth 0.\<close>

definition create :: "string \<Rightarrow> CoreMessage list \<Rightarrow> string \<Rightarrow> DialogueState" where
  "create sys history query =
     \<lparr>conversationHistory = history, systemPrompt = sys, currentQuery = query,
      depth = 0, metrics = None\<rparr>"

definition withNewMessage :: "DialogueState \<Rightarrow> role \<Rightarrow> string \<Rightarrow> DialogueState" where
  "withNewMessage st r c =
     \<lparr>conversationHistory = conversationHistory st @ [\<lparr>role = r, content = c\<rparr>],
      systemPrompt = systemPrompt st, currentQuery = currentQuery st,
      depth = depth st + 1, metrics = metrics st\<rparr>"

text \<open>
  \<open>hash()\<close> is the JSON text of \<open>{history, query, depth}\<close>. Two states have equal
  JSON texts exactly when these three components are equal, so the key is the triple.
\<close>

type_synonym hashkey = "CoreMessage list \<times> string \<times> nat"

definition hash :: "DialogueState \<Rightarrow> hashkey" where
  "hash st = (conversationHistory st, currentQuery st, depth st)"

text \<open>
  A node of the tree. Nodes live in an arena (\<open>nodes\<close> below) and a reference to a node
  is its index there, which stands for the random \<open>id\<close> of the program. The child list
  keeps order and repetitions, as the array does.
\<close>

record MCTSNode =
  state :: DialogueState
  parent :: "nat option"
  action :: "string option"
  children :: "nat list"
  visits :: nat
  isFullyExpanded :: bool
  totalValue :: jsnum
  raveVisits :: nat
  raveValue :: jsnum

text \<open>\<open>new MCTSNode(state, parent, action)\<close>\<close>

definition newNode :: "DialogueState \<Rightarrow> nat option \<Rightarrow> string option \<Rightarrow> MCTSNode" where
  "newNode st p a =
     \<lparr>state = st, parent = p, action = a, children = [], visits = 0,
      isFullyExpanded = False, totalValue = Num 0, raveVisits = 0, raveValue = Num 0\<rparr>"

definition addVisit :: "jsnum \<Rightarrow> MCTSNode \<Rightarrow> MCTSNode" where
  "addVisit v n = n\<lparr>visits := visits n + 1, totalValue := jadd (totalValue n) v\<rparr>"

definition addRaveData :: "jsnum \<Rightarrow> MCTSNode \<Rightarrow> MCTSNode" where
  "addRaveData v n = n\<lparr>raveVisits := raveVisits n + 1, raveValue := jadd (raveValue n) v\<rparr>"

definition getAverageValue :: "MCTSNode \<Rightarrow> jsnum" where
  "getAverageValue n =
     (if visits n = 0 then Num 0 else jdiv (totalValue n) (Num (real (visits n))))"

definition getRaveValue :: "MCTSNode \<Rightarrow> jsnum" where
  "getRaveValue n =
     (if raveVisits n = 0 then Num 0 else jdiv (raveValue n) (Num (real (raveVisits n))))"

text \<open>
  \<open>getPUCTScore(totalParentVisits, priorProbability)\<close>. The exploration constant is the
  local constant \<open>C = 1.5\<close> of the method.
\<close>

definition exploitationTerm :: "MCTSNode \<Rightarrow> jsnum" where
  "exploitationTerm n =
     (if visits n = 0 then Num 0 else jdiv (totalValue n) (Num (real (visits n))))"

definition explorationTerm :: "MCTSNode \<Rightarrow> jsnum \<Rightarrow> jsnum \<Rightarrow> jsnum" where
  "explorationTerm n totalParentVisits priorProbability =
     jdiv (jmul (jmul (Num (3 / 2)) priorProbability) (jsqrt totalParentVisits))
          (Num (1 + real (visits n)))"

definition betaWeight :: "MCTSNode \<Rightarrow> jsnum \<Rightarrow> jsnum \<Rightarrow> jsnum" where
  "betaWeight n totalParentVisits priorProbability =
     jdiv (Num (real (visits n)))
          (jadd (Num (real (visits n) + real (raveVisits n)))
                (jmul (jmul (Num 4) priorProbability) totalParentVisits))"

definition getPUCTScore :: "MCTSNode \<Rightarrow> jsnum \<Rightarrow> jsnum \<Rightarrow> jsnum" where
  "getPUCTScore n totalParentVisits priorProbability =
     (let exploitation = exploitationTerm n;
          exploration = explorationTerm n totalParentVisits priorProbability;
          beta = betaWeight n totalParentVisits priorProbability;
          raveComponent = getRaveValue n
      in jadd (jadd (jmul beta exploitation) (jmul (jsub (Num 1) beta) raveComponent))
              exploration)"

section \<open>The search engine\<close>

record Options =
  maxDepth :: nat
  maxChildren :: nat
  explorationConstant :: jsnum
  temperature :: jsnum
  useRAVE :: bool

definition isTerminal :: "Options \<Rightarrow> DialogueState \<Rightarrow> bool" where
  "isTerminal opts st =
     (maxDepth opts \<le> depth st
      \<or> includes_str (toLowerCase (currentQuery st)) ''goodbye''
      \<or> includes_str (toLowerCase (currentQuery st)) ''thank you'')"

text \<open>
  The options that \<open>mcts\<close> passes on when its caller gives none
  (\<open>options.maxDepth ?? 10\<close>, and so on).
\<close>

definition defaultOptions :: Options where
  "defaultOptions =
     \<lparr>maxDepth = 10, maxChildren = 3, explorationConstant = Num (3 / 2),
      temperature = Num (8 / 10), useRAVE = True\<rparr>"

text \<open>
  The specification's reading of the closing-phrase test, independent of the program's
  string methods: some contiguous part of the query equals the phrase up to the case of
  its letters.
\<close>

definition containsIgnoringCase :: "string \<Rightarrow> string \<Rightarrow> bool" where
  "containsIgnoringCase q p = (\<exists>u w v. q = u @ w @ v \<and> toLowerCase w = toLowerCase p)"

subsection \<open>The three oracle operations\<close>

text \<open>
  Every expensive step is a call of the external \<open>generateText\<close>. Its outcome is a
  parameter of the model: either the call throws (\<open>Failure\<close>) or it yields a text and
  the number of completion tokens it used. Each operation below is the code that runs
  once the awaited call has settled; \<open>completionTokens\<close> is passed in and returned.
\<close>

datatype reply = Failure | Completion string nat

text \<open>An array read \<open>xs[i]\<close>: \<open>undefined\<close> beyond the end.\<close>

definition elemAt :: "'a list \<Rightarrow> nat \<Rightarrow> 'a option" where
  "elemAt xs i = (if i < length xs then Some (xs ! i) else None)"

text \<open>
  \<open>generateActions\<close>: one call per candidate. \<open>completions\<close> holds the texts pushed so
  far, so the loop counter is its length. A reply either leaves the loop running
  (\<open>Inl\<close>, the next call is awaited) or ends the operation (\<open>Inr\<close>): with all the texts
  after the last call, with the empty list as soon as one call throws.
\<close>

definition generateActions ::
  "Options \<Rightarrow> reply \<Rightarrow> string list \<Rightarrow> nat \<Rightarrow> (string list + string list) \<times> nat" where
  "generateActions opts r completions tokens =
     (case r of
        Failure \<Rightarrow> (Inr [], tokens)
      | Completion t u \<Rightarrow>
          if length (completions @ [t]) < maxChildren opts
          then (Inl (completions @ [t]), tokens + u)
          else (Inr (completions @ [t]), tokens + u))"

text \<open>
  \<open>evaluate\<close>: the three comma-separated ratings are clamped by
  \<open>Math.max(0, Math.min(parseFloat(n.trim()), 1))\<close>, stored in the state's metrics and
  combined with the weights 0.3, 0.4, 0.3. A missing array element is \<open>undefined\<close>.
  Only a throwing call reaches the handler that returns 0.5.
\<close>

definition clampRating :: "string \<Rightarrow> jsnum" where
  "clampRating n = jmax (Num 0) (jmin (parseFloat (trim n)) (Num 1))"

definition evaluate :: "reply \<Rightarrow> DialogueState \<Rightarrow> nat \<Rightarrow> jsnum \<times> DialogueState \<times> nat" where
  "evaluate r st tokens =
     (case r of
        Failure \<Rightarrow> (Num (1 / 2), st, tokens)
      | Completion t u \<Rightarrow>
          (let ratings = map clampRating (split_str CHR '','' t);
               c = elemAt ratings 0;
               rl = elemAt ratings 1;
               e = elemAt ratings 2
           in (jadd (jadd (jmul (toNumber c) (Num (3 / 10))) (jmul (toNumber rl) (Num (4 / 10))))
                    (jmul (toNumber e) (Num (3 / 10))),
               st\<lparr>metrics := Some \<lparr>coherence = c, relevance = rl, engagement = e\<rparr>\<rparr>,
               tokens + u)))"

text \<open>
  \<open>calculateActionPriors\<close>: the lines of the reply that parse as numbers, through a
  softmax. Only a throwing call reaches the handler that returns the uniform
  distribution over the candidates.
\<close>

definition jsum :: "jsnum list \<Rightarrow> jsnum" where
  "jsum xs = foldl jadd (Num 0) xs"

definition softmax :: "jsnum list \<Rightarrow> jsnum list" where
  "softmax scores =
     (let expScores = map jexp scores;
          total = jsum expScores
      in map (\<lambda>score. jdiv score total) expScores)"

text \<open>The local \<open>scores\<close>: the lines of the reply, parsed, without those that gave \<open>NaN\<close>.\<close>

definition ratingScores :: "string \<Rightarrow> jsnum list" where
  "ratingScores t =
     filter (\<lambda>score. \<not> isNaN score)
       (map (\<lambda>line. parseFloat (trim line)) (split_str CHR 0x0A t))"

definition calculateActionPriors :: "reply \<Rightarrow> string list \<Rightarrow> nat \<Rightarrow> jsnum list \<times> nat" where
  "calculateActionPriors r actions tokens =
     (case r of
        Failure \<Rightarrow>
          (replicate (length actions) (jdiv (Num 1) (Num (real (length actions)))), tokens)
      | Completion t u \<Rightarrow> (softmax (ratingScores t), tokens + u))"

subsection \<open>The engine's state\<close>

text \<open>
  The fields of the \<open>MCTS\<close> instance. \<open>actionPriors.set(action, undefined)\<close> is modelled
  by removing the key: the program only ever reads the map with \<open>get\<close>, which returns
  \<open>undefined\<close> in both cases.
\<close>

record MCTS =
  nodes :: "MCTSNode list"
  transpositionTable :: "hashkey \<rightharpoonup> nat"
  actionPriors :: "string \<rightharpoonup> jsnum"
  completionTokens :: nat

subsection \<open>Selection\<close>

text \<open>\<open>this.actionPriors.get(child.action || "") || 1.0 / current.children.length\<close>\<close>

definition priorProb :: "'a MCTS_scheme \<Rightarrow> nat \<Rightarrow> MCTSNode \<Rightarrow> jsnum" where
  "priorProb m childCount child =
     (case actionPriors m (case action child of None \<Rightarrow> [] | Some a \<Rightarrow> a) of
        None \<Rightarrow> jdiv (Num 1) (Num (real childCount))
      | Some p \<Rightarrow> if truthy (Some p) then p else jdiv (Num 1) (Num (real childCount)))"

text \<open>The callback of \<open>reduce\<close> in \<open>select\<close>: keeps \<open>best\<close> unless \<open>child\<close> scores strictly higher.\<close>

definition betterChild :: "'a MCTS_scheme \<Rightarrow> MCTSNode \<Rightarrow> nat \<Rightarrow> nat \<Rightarrow> nat" where
  "betterChild m current best child =
     (let totalVisits = Num (real (visits current));
          k = length (children current)
      in if jgt (getPUCTScore (nodes m ! child) totalVisits (priorProb m k (nodes m ! child)))
                (getPUCTScore (nodes m ! best) totalVisits (priorProb m k (nodes m ! best)))
         then child else best)"


text \<open>
  The loop of \<open>select\<close>, with the path pushed so far and the current node. The loop need
  not end, so the result is an option: \<open>None\<close> is a loop that never returns. The result
  holds the path and the marker set, which the loop extends.
\<close>

partial_function (option) select ::
  "Options \<Rightarrow> 'a MCTS_scheme \<Rightarrow> hashkey set \<Rightarrow> nat list \<Rightarrow> nat \<Rightarrow> (nat list \<times> hashkey set) option"
where
  "select opts m inProgress path current =
     (if \<not> isTerminal opts (state (nodes m ! current)) \<and> isFullyExpanded (nodes m ! current)
      then
        (case children (nodes m ! current) of
           [] \<Rightarrow> Some ((path @ [current]) @ [current], inProgress)
         | c # cs \<Rightarrow>
             if hash (state (nodes m ! current)) \<in> inProgress
             then select opts m inProgress (path @ [current]) current
             else select opts m (insert (hash (state (nodes m ! current))) inProgress)
                    (path @ [current]) (foldl (betterChild m (nodes m ! current)) c cs))
      else Some (path @ [current], inProgress))"

text \<open>
  What makes an arena a tree as \<open>expand\<close> builds it: every child reference is a node of
  the arena, and the state of a child is one turn deeper than the state of its parent
  (\<open>withNewMessage\<close> adds 1 to the depth).
\<close>

definition wellFormedTree :: "'a MCTS_scheme \<Rightarrow> bool" where
  "wellFormedTree m =
     list_all
       (\<lambda>n. list_all
              (\<lambda>c. c < length (nodes m) \<and> depth (state (nodes m ! c)) = depth (state n) + 1)
              (children n))
       (nodes m)"

text \<open>
  The transposition table is consistent when every entry refers to a node of the arena
  whose state has the hash it is filed under. \<open>treeInvariant\<close> is what a search keeps
  true of its instance.
\<close>

definition tableConsistent :: "'a MCTS_scheme \<Rightarrow> bool" where
  "tableConsistent m \<longleftrightarrow>
     (\<forall>h c. transpositionTable m h = Some c \<longrightarrow>
        c < length (nodes m) \<and> hash (state (nodes m ! c)) = h)"

definition treeInvariant :: "'a MCTS_scheme \<Rightarrow> bool" where
  "treeInvariant m \<longleftrightarrow> wellFormedTree m \<and> tableConsistent m"

subsection \<open>Expansion and backpropagation\<close>

text \<open>
  The loop of \<open>expand\<close> over the candidate actions, with the priors still to be read:
  the child is looked up in the transposition table or created, pushed onto the child
  list of the expanded node, and the prior of its action is recorded (\<open>priors[i]\<close> is
  \<open>undefined\<close> once the priors have run out).
\<close>

fun attachChildren :: "nat \<Rightarrow> string list \<Rightarrow> jsnum list \<Rightarrow> 'a MCTS_scheme \<Rightarrow> 'a MCTS_scheme" where
  "attachChildren node [] priors m = m"
| "attachChildren node (a # as) priors m =
     (let newState = withNewMessage (state (nodes m ! node)) Assistant a;
          stateHash = hash newState;
          childNode = (case transpositionTable m stateHash of
                         None \<Rightarrow> length (nodes m)
                       | Some c \<Rightarrow> c);
          m1 = (case transpositionTable m stateHash of
                  None \<Rightarrow>
                    m\<lparr>nodes := nodes m @ [newNode newState (Some node) (Some a)],
                      transpositionTable := (transpositionTable m)(stateHash \<mapsto> length (nodes m))\<rparr>
                | Some c \<Rightarrow> m);
          m2 = m1\<lparr>nodes := (nodes m1)
                      [node := (nodes m1 ! node)\<lparr>children := children (nodes m1 ! node) @ [childNode]\<rparr>],
                  actionPriors := (actionPriors m1)(a := (case priors of [] \<Rightarrow> None | p # _ \<Rightarrow> Some p))\<rparr>
      in attachChildren node as (tl priors) m2)"

definition markFullyExpanded :: "nat \<Rightarrow> 'a MCTS_scheme \<Rightarrow> 'a MCTS_scheme" where
  "markFullyExpanded node m =
     m\<lparr>nodes := (nodes m)[node := (nodes m ! node)\<lparr>isFullyExpanded := True\<rparr>]\<rparr>"

text \<open>\<open>backpropagate\<close>: every entry of the path, last first, is visited once.\<close>

definition visitNode :: "Options \<Rightarrow> jsnum \<Rightarrow> 'a MCTS_scheme \<Rightarrow> nat \<Rightarrow> 'a MCTS_scheme" where
  "visitNode opts v m node =
     m\<lparr>nodes := (nodes m)
          [node := (if useRAVE opts then addRaveData v (addVisit v (nodes m ! node))
                    else addVisit v (nodes m ! node))]\<rparr>"

definition backpropagate :: "Options \<Rightarrow> nat list \<Rightarrow> jsnum \<Rightarrow> 'a MCTS_scheme \<Rightarrow> 'a MCTS_scheme" where
  "backpropagate opts path v m = foldl (visitNode opts v) m (rev path)"

subsection \<open>The simulations of one search\<close>

text \<open>
  \<open>findBestResponse\<close> starts \<open>numSimulations\<close> asynchronous tasks on one thread. A task
  runs without interruption until it awaits; the only awaits that wait for something
  outside the program are the calls of \<open>generateText\<close>. A task is therefore described
  by the call it is waiting for, together with the local variables that are live there:

  \<^item> \<open>Selected\<close>: the task has called \<open>select\<close> and waits for its first turn;
  \<^item> \<open>GenerateActions k completions\<close>: inside \<open>generateActions\<close>, called from \<open>expand\<close>
    (\<open>k = ExpandLeaf\<close>) or from the loop of \<open>simulate\<close> (\<open>k = Rollout currentState depth value\<close>);
  \<^item> \<open>CalculatePriors actions\<close>: inside \<open>expand\<close>, waiting for \<open>calculateActionPriors\<close>;
  \<^item> \<open>Evaluate currentState depth value\<close>: inside \<open>simulate\<close>, waiting for \<open>evaluate\<close>;
  \<^item> \<open>Finished\<close>: the task has returned.

  The remaining awaits (of a promise of the program's own) also give other tasks a
  turn, but the code that runs after them commutes with the turns of the other tasks:
  between two calls a task either attaches children (which reads and writes the table,
  the child list, the priors and the flag, in one piece) or adds to the counters of
  the nodes on its path, which no turn reads, or touches only its own variables. So a
  turn here runs from one reply to the next call, and the states in which all tasks
  have returned are the same.
\<close>

datatype continuation = ExpandLeaf | Rollout DialogueState nat jsnum

datatype phase =
    Selected
  | GenerateActions continuation "string list"
  | CalculatePriors "string list"
  | Evaluate DialogueState nat jsnum
  | Finished

record task =
  path :: "nat list"
  phase :: phase

text \<open>
  The running search: the instance, the tasks, and the number of calls of
  \<open>Math.random\<close> made so far. The random source is a parameter \<open>rnd\<close>: the \<open>k\<close>-th call
  draws \<open>rnd k\<close>, and an index into \<open>n\<close> elements is \<open>rnd k mod n\<close>, which ranges over
  the same indices \<open>0..<n\<close> as \<open>Math.floor(Math.random() * n)\<close>.
\<close>

record Search = MCTS +
  tasks :: "task list"
  randomCalls :: nat

definition setPhase :: "nat \<Rightarrow> phase \<Rightarrow> Search \<Rightarrow> Search" where
  "setPhase i ph w = w\<lparr>tasks := (tasks w)[i := (tasks w ! i)\<lparr>phase := ph\<rparr>]\<rparr>"

text \<open>The end of \<open>simulate\<close> and the rest of the task: \<open>value / (depth || 1)\<close> is backpropagated.\<close>

definition finishSimulation :: "Options \<Rightarrow> nat \<Rightarrow> nat \<Rightarrow> jsnum \<Rightarrow> Search \<Rightarrow> Search" where
  "finishSimulation opts i d acc w =
     setPhase i Finished
       (backpropagate opts (path (tasks w ! i))
          (jdiv acc (Num (if d = 0 then 1 else real d))) w)"

text \<open>
  The head of the loop of \<open>simulate\<close>. When the loop goes on it calls \<open>generateActions\<close>,
  which awaits a call unless \<open>maxChildren\<close> is 0; then it returns no action and the
  loop breaks.
\<close>

definition simulateLoop ::
  "Options \<Rightarrow> nat \<Rightarrow> nat \<Rightarrow> DialogueState \<Rightarrow> nat \<Rightarrow> jsnum \<Rightarrow> Search \<Rightarrow> Search" where
  "simulateLoop opts simulationDepth i currentState d acc w =
     (if \<not> isTerminal opts currentState \<and> d < simulationDepth
      then (if 0 < maxChildren opts
            then setPhase i (GenerateActions (Rollout currentState d acc) []) w
            else finishSimulation opts i d acc w)
      else finishSimulation opts i d acc w)"

text \<open>\<open>simulate\<close> once \<open>generateActions\<close> has returned: progressive widening and the random pick.\<close>

definition rolloutActions ::
  "Options \<Rightarrow> (nat \<Rightarrow> nat) \<Rightarrow> nat \<Rightarrow> DialogueState \<Rightarrow> nat \<Rightarrow> jsnum \<Rightarrow> string list \<Rightarrow> Search \<Rightarrow> Search"
where
  "rolloutActions opts rnd i currentState d acc actions w =
     (if actions = [] then finishSimulation opts i d acc w
      else
        (let numActions = max 1 (nat \<lfloor>sqrt (real (d + 1))\<rfloor>);
             selectedActions = take numActions actions;
             randomAction = selectedActions ! (rnd (randomCalls w) mod length selectedActions)
         in setPhase i (Evaluate (withNewMessage currentState Assistant randomAction) d acc)
              (w\<lparr>randomCalls := randomCalls w + 1\<rparr>)))"

text \<open>\<open>simulate\<close> once \<open>evaluate\<close> has returned: the discounted value is added.\<close>

definition rolloutEvaluated ::
  "Options \<Rightarrow> nat \<Rightarrow> nat \<Rightarrow> DialogueState \<Rightarrow> nat \<Rightarrow> jsnum \<Rightarrow> reply \<Rightarrow> Search \<Rightarrow> Search" where
  "rolloutEvaluated opts simulationDepth i currentState d acc r w =
     (case evaluate r currentState (completionTokens w) of
        (intermediateValue, st, tokens) \<Rightarrow>
          simulateLoop opts simulationDepth i st (d + 1)
            (jadd acc (jmul intermediateValue (Num ((95 / 100) ^ d))))
            (w\<lparr>completionTokens := tokens\<rparr>))"

text \<open>
  \<open>expand\<close> once \<open>generateActions\<close> has returned: with no action the leaf is marked and
  is itself the node to simulate from; otherwise the priors are asked for.
\<close>

definition expandActions :: "Options \<Rightarrow> nat \<Rightarrow> nat \<Rightarrow> string list \<Rightarrow> Search \<Rightarrow> Search" where
  "expandActions opts simulationDepth i actions w =
     (let leaf = last (path (tasks w ! i))
      in if actions = []
         then simulateLoop opts simulationDepth i (state (nodes w ! leaf)) 0 (Num 0)
                (markFullyExpanded leaf w)
         else setPhase i (CalculatePriors actions) w)"

text \<open>
  \<open>expand\<close> once \<open>calculateActionPriors\<close> has returned: the children are attached, the
  leaf is marked, and \<open>simulate\<close> starts from \<open>node.children[0]\<close> (the list is not empty
  here, since at least one action was attached).
\<close>

definition expandPriors :: "Options \<Rightarrow> nat \<Rightarrow> nat \<Rightarrow> string list \<Rightarrow> reply \<Rightarrow> Search \<Rightarrow> Search" where
  "expandPriors opts simulationDepth i actions r w =
     (case calculateActionPriors r actions (completionTokens w) of
        (priors, tokens) \<Rightarrow>
          (let leaf = last (path (tasks w ! i));
               w1 = markFullyExpanded leaf
                      (attachChildren leaf actions priors (w\<lparr>completionTokens := tokens\<rparr>));
               expandedNode = hd (children (nodes w1 ! leaf))
           in simulateLoop opts simulationDepth i (state (nodes w1 ! expandedNode)) 0 (Num 0) w1))"

text \<open>
  The first turn of a task, after \<open>select\<close>: the body of the simulation up to its first
  call. \<open>expand\<close> tests \<open>isTerminal\<close> once more before it calls \<open>generateActions\<close>.
\<close>

definition afterSelect :: "Options \<Rightarrow> nat \<Rightarrow> Search \<Rightarrow> nat \<Rightarrow> Search" where
  "afterSelect opts simulationDepth w i =
     (let leaf = last (path (tasks w ! i))
      in if \<not> isTerminal opts (state (nodes w ! leaf))
         then (if isTerminal opts (state (nodes w ! leaf))
               then simulateLoop opts simulationDepth i (state (nodes w ! leaf)) 0 (Num 0) w
               else if 0 < maxChildren opts
               then setPhase i (GenerateActions ExpandLeaf []) w
               else expandActions opts simulationDepth i [] w)
         else setPhase i Finished w)"

text \<open>The turn of task \<open>i\<close> when the call it waits for settles with reply \<open>r\<close>.\<close>

definition deliver :: "Options \<Rightarrow> nat \<Rightarrow> (nat \<Rightarrow> nat) \<Rightarrow> Search \<Rightarrow> nat \<times> reply \<Rightarrow> Search" where
  "deliver opts simulationDepth rnd w ev =
     (case ev of (i, r) \<Rightarrow>
        if i < length (tasks w) then
          (case phase (tasks w ! i) of
             Selected \<Rightarrow> w
           | Finished \<Rightarrow> w
           | GenerateActions k completions \<Rightarrow>
               (case generateActions opts r completions (completionTokens w) of
                  (Inl cs, tokens) \<Rightarrow>
                    setPhase i (GenerateActions k cs) (w\<lparr>completionTokens := tokens\<rparr>)
                | (Inr actions, tokens) \<Rightarrow>
                    (case k of
                       ExpandLeaf \<Rightarrow>
                         expandActions opts simulationDepth i actions (w\<lparr>completionTokens := tokens\<rparr>)
                     | Rollout currentState d acc \<Rightarrow>
                         rolloutActions opts rnd i currentState d acc actions
                           (w\<lparr>completionTokens := tokens\<rparr>)))
           | CalculatePriors actions \<Rightarrow> expandPriors opts simulationDepth i actions r w
           | Evaluate currentState d acc \<Rightarrow>
               rolloutEvaluated opts simulationDepth i currentState d acc r w)
        else w)"

text \<open>
  The synchronous part of \<open>findBestResponse\<close>: the root is created and entered in the
  table of a fresh instance, and each task in turn runs up to its first await, which
  is the await of \<open>select\<close> itself. All calls of \<open>select\<close> therefore run, one after the
  other on the shared marker set, before any task continues.
\<close>

fun selectAll ::
  "Options \<Rightarrow> 'a MCTS_scheme \<Rightarrow> nat \<Rightarrow> hashkey set \<Rightarrow> (nat list list \<times> hashkey set) option" where
  "selectAll opts m 0 inProgress = Some ([], inProgress)"
| "selectAll opts m (Suc n) inProgress =
     (case select opts m inProgress [] 0 of
        None \<Rightarrow> None
      | Some (p, inProgress') \<Rightarrow>
          (case selectAll opts m n inProgress' of
             None \<Rightarrow> None
           | Some (ps, inProgress'') \<Rightarrow> Some (p # ps, inProgress'')))"

definition initialSearch :: "DialogueState \<Rightarrow> Search" where
  "initialSearch initialState =
     \<lparr>nodes = [newNode initialState None None],
      transpositionTable = [hash initialState \<mapsto> 0],
      actionPriors = Map.empty,
      completionTokens = 0,
      tasks = [],
      randomCalls = 0\<rparr>"

text \<open>The search when every task has had its first turn, in the order of their creation.\<close>

definition startSearch :: "Options \<Rightarrow> nat \<Rightarrow> nat \<Rightarrow> DialogueState \<Rightarrow> Search option" where
  "startSearch opts simulationDepth numSimulations initialState =
     (case selectAll opts (initialSearch initialState) numSimulations {} of
        None \<Rightarrow> None
      | Some (paths, inProgress) \<Rightarrow>
          Some (foldl (afterSelect opts simulationDepth)
                  ((initialSearch initialState)\<lparr>tasks := map (\<lambda>p. \<lparr>path = p, phase = Selected\<rparr>) paths\<rparr>)
                  [0..<numSimulations]))"

text \<open>
  The replies then arrive in some order: a schedule lists, turn by turn, which task's
  call settles and with what. \<open>runSearch\<close> is the search after a schedule.
\<close>

definition runSearch ::
  "Options \<Rightarrow> nat \<Rightarrow> nat \<Rightarrow> (nat \<Rightarrow> nat) \<Rightarrow> DialogueState \<Rightarrow> (nat \<times> reply) list \<Rightarrow> Search option" where
  "runSearch opts simulationDepth numSimulations rnd initialState schedule =
     (case startSearch opts simulationDepth numSimulations initialState of
        None \<Rightarrow> None
      | Some w \<Rightarrow> Some (foldl (deliver opts simulationDepth rnd) w schedule))"

definition allFinished :: "Search \<Rightarrow> bool" where
  "allFinished w = list_all (\<lambda>t. phase t = Finished) (tasks w)"

text \<open>The end of \<open>findBestResponse\<close>: the action of the first child with the most visits.\<close>

definition moreVisited :: "Search \<Rightarrow> nat \<Rightarrow> nat \<Rightarrow> nat" where
  "moreVisited w best child =
     (if visits (nodes w ! best) < visits (nodes w ! child) then child else best)"

definition bestAction :: "Search \<Rightarrow> string" where
  "bestAction w =
     (case children (nodes w ! 0) of
        [] \<Rightarrow> []
      | c # cs \<Rightarrow>
          (case action (nodes w ! foldl (moreVisited w) c cs) of
             None \<Rightarrow> []
           | Some a \<Rightarrow> a))"

text \<open>
  \<open>findBestResponse\<close> returns once all tasks have returned (\<open>Promise.all\<close>): after a
  schedule that leaves a task waiting, or when a \<open>select\<close> never returns, there is no
  result (\<open>None\<close>).
\<close>

definition findBestResponse ::
  "Options \<Rightarrow> nat \<Rightarrow> nat \<Rightarrow> (nat \<Rightarrow> nat) \<Rightarrow> DialogueState \<Rightarrow> (nat \<times> reply) list \<Rightarrow> string option" where
  "findBestResponse opts simulationDepth numSimulations rnd initialState schedule =
     (case runSearch opts simulationDepth numSimulations rnd initialState schedule of
        None \<Rightarrow> None
      | Some w \<Rightarrow> if allFinished w then Some (bestAction w) else None)"

subsection \<open>A tree after one expansion\<close>



subsection \<open>A stub oracle\<close>

text \<open>
  The scenario of the specification: \<open>maxDepth = 1\<close>, \<open>maxChildren = 2\<close> (the other
  options as \<open>mcts\<close> defaults them), and a deterministic oracle. What the oracle
  answers depends only on the call, and the call a task is waiting for is its phase:
  the candidates are \<open>A\<close>, then \<open>B\<close>; the two ratings are equal, which gives the priors
  0.5 and 0.5; a state is judged 1, 1, 1 when its latest turn is \<open>A\<close> and 0, 0, 0
  otherwise, so that \<open>evaluate\<close> returns 1.0 and 0.0.
\<close>

definition scenarioOptions :: Options where
  "scenarioOptions =
     \<lparr>maxDepth = 1, maxChildren = 2, explorationConstant = Num (3 / 2),
      temperature = Num (8 / 10), useRAVE = True\<rparr>"

definition stubOracle :: "phase \<Rightarrow> reply" where
  "stubOracle ph =
     (case ph of
        GenerateActions k completions \<Rightarrow> Completion (if completions = [] then ''A'' else ''B'') 0
      | CalculatePriors actions \<Rightarrow> Completion [CHR ''0'', CHR 0x0A, CHR ''0''] 0
      | Evaluate st d acc \<Rightarrow>
          (case rev (conversationHistory st) of
             [] \<Rightarrow> Completion ''0,0,0'' 0
           | m # ms \<Rightarrow> Completion (if content m = ''A'' then ''1,1,1'' else ''0,0,0'') 0)
      | Selected \<Rightarrow> Failure
      | Finished \<Rightarrow> Failure)"

text \<open>
  The schedule that an oracle produces when the tasks get their turns in the order
  \<open>ids\<close>: each turn delivers the oracle's answer to the call that task is waiting for.
\<close>

fun oracleSchedule ::
  "Options \<Rightarrow> nat \<Rightarrow> (nat \<Rightarrow> nat) \<Rightarrow> (phase \<Rightarrow> reply) \<Rightarrow> Search \<Rightarrow> nat list \<Rightarrow> (nat \<times> reply) list" where
  "oracleSchedule opts sd rnd oracle w [] = []"
| "oracleSchedule opts sd rnd oracle w (i # ids) =
     (i, oracle (phase (tasks w ! i)))
       # oracleSchedule opts sd rnd oracle
           (deliver opts sd rnd w (i, oracle (phase (tasks w ! i)))) ids"

definition answeredSchedule ::
  "Options \<Rightarrow> nat \<Rightarrow> nat \<Rightarrow> (nat \<Rightarrow> nat) \<Rightarrow> (phase \<Rightarrow> reply) \<Rightarrow> DialogueState \<Rightarrow> nat list
     \<Rightarrow> (nat \<times> reply) list" where
  "answeredSchedule opts sd n rnd oracle st ids =
     (case startSearch opts sd n st of
        None \<Rightarrow> []
      | Some w \<Rightarrow> oracleSchedule opts sd rnd oracle w ids)"

text \<open>A random source that always draws 0, and the round-robin order of \<open>n\<close> tasks, \<open>k\<close> rounds.\<close>

definition zeroDraws :: "nat \<Rightarrow> nat" where
  "zeroDraws k = 0"

definition roundRobin :: "nat \<Rightarrow> nat \<Rightarrow> nat list" where
  "roundRobin k n = concat (replicate k [0..<n])"

subsection \<open>Invariants of a running search\<close>

text \<open>
  \<open>rootCounts st n w\<close>: there are \<open>n\<close> tasks, each with the path that holds only the
  root; the root has the initial state and as many visits as there are finished tasks;
  every other node has no visit.
\<close>

definition finishedCount :: "Search \<Rightarrow> nat" where
  "finishedCount w = length (filter (\<lambda>t. phase t = Finished) (tasks w))"

definition rootCounts :: "DialogueState \<Rightarrow> nat \<Rightarrow> Search \<Rightarrow> bool" where
  "rootCounts st0 n w \<longleftrightarrow>
     length (tasks w) = n
     \<and> map path (tasks w) = replicate n [0]
     \<and> (\<exists>k. map visits (nodes w) = finishedCount w # replicate k 0)
     \<and> (\<exists>sts. map state (nodes w) = st0 # sts)"

text \<open>
  Under the stub oracle a task waits for its first candidate, its second candidate or
  its priors, or has finished; \<open>repliesLeft\<close> counts the replies it still needs. The tree
  is either the root alone or the root with the nodes of \<open>A\<close> and \<open>B\<close>, and then the
  root's child list holds the pair once for every finished task.
\<close>

definition stubPhase :: "phase \<Rightarrow> bool" where
  "stubPhase ph \<longleftrightarrow>
     ph = GenerateActions ExpandLeaf [] \<or> ph = GenerateActions ExpandLeaf [''A'']
     \<or> ph = CalculatePriors [''A'', ''B''] \<or> ph = Finished"

definition repliesLeft :: "phase \<Rightarrow> nat" where
  "repliesLeft ph =
     (if ph = GenerateActions ExpandLeaf [] then 3
      else if ph = GenerateActions ExpandLeaf [''A''] then 2
      else if ph = CalculatePriors [''A'', ''B''] then 1
      else 0)"

definition treeShape :: "DialogueState \<Rightarrow> Search \<Rightarrow> bool" where
  "treeShape st w \<longleftrightarrow>
     (finishedCount w = 0
        \<and> (\<exists>r. nodes w = [r] \<and> children r = [])
        \<and> transpositionTable w (hash (withNewMessage st Assistant ''A'')) = None
        \<and> transpositionTable w (hash (withNewMessage st Assistant ''B'')) = None)
     \<or> (0 < finishedCount w
        \<and> (\<exists>r a b. nodes w = [r, a, b]
               \<and> children r = concat (replicate (finishedCount w) [1, 2])
               \<and> state a = withNewMessage st Assistant ''A''
               \<and> action a = Some ''A'' \<and> action b = Some ''B'')
        \<and> transpositionTable w (hash (withNewMessage st Assistant ''A'')) = Some 1
        \<and> transpositionTable w (hash (withNewMessage st Assistant ''B'')) = Some 2)"

definition stubState :: "DialogueState \<Rightarrow> nat \<Rightarrow> Search \<Rightarrow> bool" where
  "stubState st n w \<longleftrightarrow>
     rootCounts st n w \<and> treeShape st w \<and> (\<forall>i<n. stubPhase (phase (tasks w ! i)))"

section \<open>Properties\<close>

lemmas parse_defs =
  parseFloat_def unsignedLiteral_def trim_def isWhiteSpace_def isDigit_def
  digitsValue_def exponentPart_def

subsection \<open>Numbers inside and outside the range of the doubles\<close>

lemma fromReal_zero [simp]: "fromReal 0 = Num 0"
  by (simp add: fromReal_def)

lemma fromReal_moderate [simp]:
  assumes "1 / 1000 \<le> \<bar>x\<bar>" and "\<bar>x\<bar> \<le> 1000"
  shows "fromReal x = Num x"
proof -
  have big: "(1000 :: real) < 2 ^ 1024 - 2 ^ 970" by simp
  have small: "(1 :: real) / 2 ^ 1075 < 1 / 1000" by simp
  show ?thesis using assms big small unfolding fromReal_def by auto
qed

lemma fromReal_exp_moderate:
  assumes "0 \<le> a" and "a \<le> 1"
  shows "fromReal (exp a) = Num (exp a)"
proof -
  have l: "1 \<le> exp a" using assms(1) by simp
  have "exp a \<le> exp 1" using assms(2) by simp
  also have "exp (1 :: real) \<le> 3" by (rule exp_le)
  finally have u: "exp a \<le> 3" .
  have "1 / 1000 \<le> \<bar>exp a\<bar>" using l by linarith
  moreover have "\<bar>exp a\<bar> \<le> 1000" using l u by linarith
  ultimately show ?thesis by (rule fromReal_moderate)
qed

lemma exp_three_quarters: "2 \<le> exp (3 / 4 :: real)"
proof -
  have "(2 :: real) \<le> (35 / 32) ^ 8" by (simp add: power_divide)
  also have "(35 / 32 :: real) \<le> exp (3 / 32)"
    using exp_ge_add_one_self [of "3 / 32 :: real"] by simp
  then have "(35 / 32 :: real) ^ 8 \<le> exp (3 / 32) ^ 8"
    by (intro power_mono) simp_all
  also have "exp (3 / 32 :: real) ^ 8 = exp (3 / 4)"
    by (simp add: exp_of_nat_mult [symmetric])
  finally show ?thesis .
qed

text \<open>\<open>Math.exp(x)\<close> is \<open>Infinity\<close> from 768 on (the doubles end below \<open>exp 710\<close>).\<close>

lemma fromReal_exp_overflow:
  assumes "768 \<le> a"
  shows "fromReal (exp a) = PInf"
proof -
  have "(2 :: real) ^ 1024 \<le> exp (3 / 4) ^ 1024"
    using exp_three_quarters by (intro power_mono) simp_all
  also have "exp (3 / 4 :: real) ^ 1024 = exp 768"
    by (simp add: exp_of_nat_mult [symmetric])
  also have "exp 768 \<le> exp a" using assms by simp
  finally have "(2 :: real) ^ 1024 \<le> exp a" .
  moreover have "(2 :: real) ^ 1024 - 2 ^ 970 \<le> 2 ^ 1024" by simp
  ultimately have "(2 :: real) ^ 1024 - 2 ^ 970 \<le> exp a" by (rule order_trans [rotated])
  then show ?thesis by (simp add: fromReal_def)
qed

lemma parseFloat_overflow: "parseFloat ''1e400'' = PInf"
  by (simp add: parse_defs fromReal_def)

subsection \<open>The selection score\<close>

lemma jmul_zero_cases: "jmul p q = Num 0 \<Longrightarrow> \<exists>a b. p = Num a \<and> q = Num b \<and> a * b = 0"
  by (cases p; cases q) (auto split: if_splits)

text \<open>
  Claim C9. \<open>getPUCTScore\<close> has no guard against a zero denominator: for a node with
  \<open>visits = 0\<close> and \<open>raveVisits = 0\<close>, called with
  \<open>priorProbability * totalParentVisits = 0\<close>, the weight \<open>beta\<close> is \<open>0 / 0\<close>, which is
  \<open>NaN\<close>, and so is the score.
\<close>

theorem getPUCTScore_zero_over_zero:
  assumes "visits n = 0" and "raveVisits n = 0"
    and "jmul priorProbability totalParentVisits = Num 0"
  shows "betaWeight n totalParentVisits priorProbability = jdiv (Num 0) (Num 0)
       \<and> betaWeight n totalParentVisits priorProbability = NaN
       \<and> getPUCTScore n totalParentVisits priorProbability = NaN"
proof -
  from assms(3) obtain a b
    where ab: "priorProbability = Num a" "totalParentVisits = Num b" "a * b = 0"
    using jmul_zero_cases by blast
  have beta: "betaWeight n totalParentVisits priorProbability = NaN"
    using assms(1,2) ab by (auto simp add: betaWeight_def)
  show ?thesis using beta by (simp add: getPUCTScore_def)
qed

theorem getPUCTScore_zero_over_zero_witness:
  "visits (newNode (create [] [] ''hi'') None None) = 0
   \<and> raveVisits (newNode (create [] [] ''hi'') None None) = 0
   \<and> jmul (Num (1 / 2)) (Num 0) = Num 0
   \<and> getPUCTScore (newNode (create [] [] ''hi'') None None) (Num 0) (Num (1 / 2)) = NaN"
  using getPUCTScore_zero_over_zero
          [of "newNode (create [] [] ''hi'') None None" "Num (1 / 2)" "Num 0"]
  by (simp add: newNode_def)

text \<open>
  Claim C4 (exploration uses the configured \<open>explorationConstant\<close>). The score never
  reads the options. For a fresh child with prior 0.5 under a parent with 4 visits the
  exploration term is \<open>1.5 * 0.5 * sqrt 4 / 1 = 1.5\<close> whatever constant was configured;
  with a configured constant of 3 the claim's formula gives 3.
\<close>

theorem exploration_ignores_explorationConstant:
  "explorationTerm (newNode (create [] [] ''hi'') None None) (Num 4) (Num (1 / 2)) = Num (3 / 2)
   \<and> getPUCTScore (newNode (create [] [] ''hi'') None None) (Num 4) (Num (1 / 2)) = Num (3 / 2)"
  by (simp add: explorationTerm_def getPUCTScore_def betaWeight_def exploitationTerm_def
        getRaveValue_def newNode_def jsub_def)

subsection \<open>The oracle operations\<close>

text \<open>
  What \<open>evaluate\<close> does return in range: 0.5 when the call throws, and a number in
  [0,1] when the reply has at least three ratings that parse.
\<close>

lemma clampRating_range:
  "clampRating n = NaN \<or> (\<exists>x. clampRating n = Num x \<and> 0 \<le> x \<and> x \<le> 1)"
  by (cases "parseFloat (trim n)") (auto simp add: clampRating_def)

lemma evaluate_failure: "fst (evaluate Failure st tokens) = Num (1 / 2)"
  by (simp add: evaluate_def)

lemma evaluate_three_ratings:
  assumes "split_str CHR '','' t = a # b # c # rest"
    and "clampRating a = Num x" and "clampRating b = Num y" and "clampRating c = Num z"
  shows "fst (evaluate (Completion t u) st tokens)
           = Num (x * (3 / 10) + y * (4 / 10) + z * (3 / 10))"
  using assms by (simp add: evaluate_def elemAt_def Let_def)

lemma evaluate_in_range:
  assumes "split_str CHR '','' t = a # b # c # rest"
    and "clampRating a \<noteq> NaN" and "clampRating b \<noteq> NaN" and "clampRating c \<noteq> NaN"
  shows "\<exists>v. fst (evaluate (Completion t u) st tokens) = Num v \<and> 0 \<le> v \<and> v \<le> 1"
proof -
  from assms(2) clampRating_range [of a]
  obtain x where x: "clampRating a = Num x" "0 \<le> x" "x \<le> 1" by auto
  from assms(3) clampRating_range [of b]
  obtain y where y: "clampRating b = Num y" "0 \<le> y" "y \<le> 1" by auto
  from assms(4) clampRating_range [of c]
  obtain z where z: "clampRating c = Num z" "0 \<le> z" "z \<le> 1" by auto
  have "fst (evaluate (Completion t u) st tokens)
          = Num (x * (3 / 10) + y * (4 / 10) + z * (3 / 10))"
    using evaluate_three_ratings [OF assms(1) x(1) y(1) z(1)] .
  moreover have "0 \<le> x * (3 / 10) + y * (4 / 10) + z * (3 / 10)" using x y z by simp
  moreover have "x * (3 / 10) + y * (4 / 10) + z * (3 / 10) \<le> 1" using x y z by simp
  ultimately show ?thesis by blast
qed

text \<open>
  Claim C5 (\<open>evaluate\<close> returns a number in [0,1], and 0.5 on a parse failure). A reply
  that holds a single rating leaves two of the three ratings \<open>undefined\<close>, and a reply
  whose ratings are not numbers parses to \<open>NaN\<close>, which passes through \<open>Math.min\<close> and
  \<open>Math.max\<close>: in both cases nothing is thrown and \<open>evaluate\<close> returns \<open>NaN\<close>.
\<close>

theorem evaluate_unparseable_reply:
  "fst (evaluate (Completion ''0.5'' 0) (create [] [] ''hi'') 0) = NaN
   \<and> fst (evaluate (Completion ''n/a, n/a, n/a'' 0) (create [] [] ''hi'') 0) = NaN"
  by (simp add: evaluate_def elemAt_def clampRating_def parse_defs Let_def)

subsection \<open>The terminal test\<close>

lemma startsWith_iff: "startsWith s p \<longleftrightarrow> (\<exists>v. s = p @ v)"
  by (induction s p rule: startsWith.induct) auto

lemma includes_str_iff: "includes_str s p \<longleftrightarrow> (\<exists>u v. s = u @ p @ v)"
proof (induction s)
  case Nil
  then show ?case by auto
next
  case (Cons c cs)
  show ?case
  proof
    assume "includes_str (c # cs) p"
    then consider "startsWith (c # cs) p" | "includes_str cs p" by auto
    then show "\<exists>u v. c # cs = u @ p @ v"
    proof cases
      case 1
      then obtain v where "c # cs = p @ v" using startsWith_iff by blast
      then have "c # cs = [] @ p @ v" by simp
      then show ?thesis by blast
    next
      case 2
      then obtain u v where "cs = u @ p @ v" using Cons.IH by blast
      then have "c # cs = (c # u) @ p @ v" by simp
      then show ?thesis by blast
    qed
  next
    assume "\<exists>u v. c # cs = u @ p @ v"
    then obtain u v where uv: "c # cs = u @ p @ v" by blast
    show "includes_str (c # cs) p"
    proof (cases u)
      case Nil
      then have "startsWith (c # cs) p" using uv startsWith_iff by auto
      then show ?thesis by simp
    next
      case (Cons d u')
      then have "cs = u' @ p @ v" using uv by simp
      then have "includes_str cs p" using Cons.IH by blast
      then show ?thesis by simp
    qed
  qed
qed

lemma map_infix:
  "(\<exists>u v. map f q = u @ p @ v) \<longleftrightarrow> (\<exists>u w v. q = u @ w @ v \<and> map f w = p)"
proof
  assume "\<exists>u v. map f q = u @ p @ v"
  then obtain u v where e: "map f q = u @ (p @ v)" by auto
  from e [unfolded map_eq_append_conv]
  obtain q1 q2 where q12: "q = q1 @ q2" "p @ v = map f q2" by blast
  from q12(2) [symmetric, unfolded map_eq_append_conv]
  obtain q3 q4 where q34: "q2 = q3 @ q4" "p = map f q3" by blast
  have "q = q1 @ q3 @ q4 \<and> map f q3 = p" using q12(1) q34 by simp
  then show "\<exists>u w v. q = u @ w @ v \<and> map f w = p" by blast
next
  assume "\<exists>u w v. q = u @ w @ v \<and> map f w = p"
  then obtain u w v where "q = u @ w @ v" "map f w = p" by blast
  then have "map f q = map f u @ p @ map f v" by simp
  then show "\<exists>u v. map f q = u @ p @ v" by blast
qed

lemma includes_lower_iff:
  assumes "toLowerCase p = p"
  shows "includes_str (toLowerCase q) p \<longleftrightarrow> containsIgnoringCase q p"
proof -
  have "includes_str (toLowerCase q) p \<longleftrightarrow> (\<exists>u v. map lowerChar q = u @ p @ v)"
    unfolding includes_str_iff toLowerCase_def ..
  also have "\<dots> \<longleftrightarrow> (\<exists>u w v. q = u @ w @ v \<and> map lowerChar w = p)"
    by (rule map_infix)
  also have "\<dots> \<longleftrightarrow> (\<exists>u w v. q = u @ w @ v \<and> toLowerCase w = toLowerCase p)"
    unfolding assms unfolding toLowerCase_def ..
  finally show ?thesis unfolding containsIgnoringCase_def .
qed

lemma lower_goodbye: "toLowerCase ''goodbye'' = ''goodbye''"
  by (simp add: toLowerCase_def lowerChar_def)

lemma lower_thank_you: "toLowerCase ''thank you'' = ''thank you''"
  by (simp add: toLowerCase_def lowerChar_def)

text \<open>
  Claim C8. \<open>isTerminal(state)\<close> holds exactly when the depth has reached \<open>maxDepth\<close>
  or the query contains, up to the case of its letters, "goodbye" or "thank you". In
  particular a state at \<open>depth = maxDepth\<close> is terminal whatever its query, and a state
  whose query contains "goodbye" is terminal at depth 0.
\<close>

theorem isTerminal_iff:
  "(isTerminal opts st \<longleftrightarrow>
      maxDepth opts \<le> depth st
      \<or> containsIgnoringCase (currentQuery st) ''goodbye''
      \<or> containsIgnoringCase (currentQuery st) ''thank you'')
   \<and> (depth st = maxDepth opts \<longrightarrow> isTerminal opts st)
   \<and> (containsIgnoringCase (currentQuery st) ''goodbye'' \<and> depth st = 0 \<longrightarrow> isTerminal opts st)"
  unfolding isTerminal_def includes_lower_iff [OF lower_goodbye]
    includes_lower_iff [OF lower_thank_you]
  by auto

lemma contains_goodbye_example: "containsIgnoringCase ''OK, GoodBye!'' ''goodbye''"
  unfolding containsIgnoringCase_def
  by (rule exI [of _ "''OK, ''"], rule exI [of _ "''GoodBye''"], rule exI [of _ "''!''"])
     (simp add: toLowerCase_def lowerChar_def)

theorem isTerminal_iff_witness:
  "containsIgnoringCase (currentQuery (create [] [] ''OK, GoodBye!'')) ''goodbye''
   \<and> depth (create [] [] ''OK, GoodBye!'') = 0
   \<and> isTerminal defaultOptions (create [] [] ''OK, GoodBye!'')
   \<and> depth ((create [] [] ''hello'')\<lparr>depth := 10\<rparr>) = maxDepth defaultOptions
   \<and> isTerminal defaultOptions ((create [] [] ''hello'')\<lparr>depth := 10\<rparr>)"
proof -
  have c: "containsIgnoringCase (currentQuery (create [] [] ''OK, GoodBye!'')) ''goodbye''"
    using contains_goodbye_example by (simp add: create_def)
  have d: "depth (create [] [] ''OK, GoodBye!'') = 0"
    by (simp add: create_def)
  have m: "depth ((create [] [] ''hello'')\<lparr>depth := 10\<rparr>) = maxDepth defaultOptions"
    by (simp add: defaultOptions_def)
  have t1: "isTerminal defaultOptions (create [] [] ''OK, GoodBye!'')"
    using isTerminal_iff [of defaultOptions "create [] [] ''OK, GoodBye!''"] c d by blast
  have t2: "isTerminal defaultOptions ((create [] [] ''hello'')\<lparr>depth := 10\<rparr>)"
    using isTerminal_iff [of defaultOptions "(create [] [] ''hello'')\<lparr>depth := 10\<rparr>"] m by blast
  show ?thesis using c d m t1 t2 by blast
qed

subsection \<open>The priors\<close>

lemma ratingScores_two_zeros: "ratingScores [CHR ''0'', CHR 0x0A, CHR ''0''] = [Num 0, Num 0]"
  by (simp add: ratingScores_def parse_defs)

text \<open>
  The softmax is taken without subtracting the largest rating: with the ratings 1000
  and 0 the first exponential is \<open>Infinity\<close>, and so is the sum, which gives
  \<open>Infinity / Infinity\<close> and \<open>1 / Infinity\<close>.
\<close>

lemma calculateActionPriors_overflow:
  "fst (calculateActionPriors (Completion [CHR ''1'', CHR ''0'', CHR ''0'', CHR ''0'', CHR 0x0A, CHR ''0''] 0)
          [''A'', ''B''] 0)
     = [NaN, Num 0]"
  by (simp add: calculateActionPriors_def ratingScores_def softmax_def jsum_def parse_defs
        fromReal_exp_overflow)

text \<open>
  \<open>expand\<close> records \<open>priors[i]\<close> as the prior of the \<open>i\<close>-th candidate: given a single
  prior for the candidates \<open>A\<close> and \<open>B\<close>, it is recorded for \<open>A\<close>, and \<open>undefined\<close> for \<open>B\<close>.
\<close>

lemma expand_reads_priors_by_index:
  "actionPriors (attachChildren 0 [''A'', ''B''] [Num 1] (initialSearch (create [] [] ''hi''))) ''A''
     = Some (Num 1)
   \<and> actionPriors (attachChildren 0 [''A'', ''B''] [Num 1] (initialSearch (create [] [] ''hi''))) ''B''
     = None"
  by (simp add: initialSearch_def Let_def hash_def withNewMessage_def create_def newNode_def)

text \<open>
  Claim C6 (\<open>calculateActionPriors\<close> returns one probability per candidate, summing to
  1, and the uniform distribution on any parse or transport failure). A reply that does
  not parse raises nothing, so the handler with the uniform distribution is not
  reached. For the two candidates \<open>A\<close> and \<open>B\<close>: a reply without any number yields no
  prior at all; a reply with the single rating 0.9 yields the single prior 1; a reply
  whose first line is not a number and whose second line rates \<open>B\<close> yields the single
  prior 1, which \<open>expand\<close> reads as \<open>priors[0]\<close>, the prior of \<open>A\<close>. Only a throwing call
  yields 0.5 and 0.5.
\<close>

theorem calculateActionPriors_unparsed_reply:
  "fst (calculateActionPriors (Completion ''both are fine'' 0) [''A'', ''B''] 0) = []
   \<and> fst (calculateActionPriors (Completion ''0.9'' 0) [''A'', ''B''] 0) = [Num 1]
   \<and> fst (calculateActionPriors
             (Completion [CHR ''n'', CHR ''/'', CHR ''a'', CHR 0x0A, CHR ''0'', CHR ''.'', CHR ''9''] 0)
             [''A'', ''B''] 0) = [Num 1]
   \<and> fst (calculateActionPriors Failure [''A'', ''B''] 0) = [Num (1 / 2), Num (1 / 2)]"
  by (simp add: calculateActionPriors_def ratingScores_def softmax_def jsum_def parse_defs
        fromReal_exp_moderate)

subsection \<open>Selection\<close>







lemma hash_depth: "hash a = hash b \<Longrightarrow> depth a = depth b"
  by (simp add: hash_def)



lemma select_initial: "select opts (initialSearch st) inProgress [] 0 = Some ([0], inProgress)"
  by (subst select.simps) (simp add: initialSearch_def newNode_def)




subsection \<open>The start of a search\<close>

text \<open>
  On the fresh tree the root is not expanded, so every \<open>select\<close> returns the path
  that holds only the root and leaves the marker set alone.
\<close>

lemma selectAll_initial:
  "selectAll opts (initialSearch st) n inProgress = Some (replicate n [0], inProgress)"
  by (induction n) (simp_all add: select_initial)


lemma startSearch_unfold:
  "startSearch opts sd n st =
     Some (foldl (afterSelect opts sd)
             ((initialSearch st)\<lparr>tasks := replicate n \<lparr>path = [0], phase = Selected\<rparr>\<rparr>) [0..<n])"
  by (simp add: startSearch_def selectAll_initial)

lemma replicate_update_next:
  "k < n \<Longrightarrow> (replicate k a @ replicate (n - k) b)[k := a] = replicate (Suc k) a @ replicate (n - Suc k) b"
proof -
  assume "k < n"
  then obtain m where m: "n - k = Suc m" by (cases "n - k") auto
  then have "n - Suc k = m" by simp
  then show ?thesis using m by (simp add: list_update_append replicate_app_Cons_same)
qed

lemma afterSelect_terminal_steps:
  assumes "isTerminal opts st" and "k \<le> n"
  shows "foldl (afterSelect opts sd)
           ((initialSearch st)\<lparr>tasks := replicate n \<lparr>path = [0], phase = Selected\<rparr>\<rparr>) [0..<k]
         = (initialSearch st)\<lparr>tasks := replicate k \<lparr>path = [0], phase = Finished\<rparr>
                                        @ replicate (n - k) \<lparr>path = [0], phase = Selected\<rparr>\<rparr>"
  using assms(2)
proof (induction k)
  case 0
  then show ?case by simp
next
  case (Suc k)
  then have k: "k < n" by simp
  have nth: "(replicate k \<lparr>path = [0], phase = Finished\<rparr> @ replicate (n - k) \<lparr>path = [0], phase = Selected\<rparr>) ! k
               = \<lparr>path = [0], phase = Selected\<rparr>"
    using k by (simp add: nth_append)
  have root: "state (nodes (initialSearch st) ! 0) = st"
    by (simp add: initialSearch_def newNode_def)
  show ?case
    using Suc.IH k assms(1) nth root replicate_update_next [OF k, of "\<lparr>path = [0], phase = Finished\<rparr>" "\<lparr>path = [0], phase = Selected\<rparr>"]
    by (simp add: afterSelect_def setPhase_def)
qed

lemma startSearch_terminal:
  assumes "isTerminal opts st"
  shows "startSearch opts sd n st
           = Some ((initialSearch st)\<lparr>tasks := replicate n \<lparr>path = [0], phase = Finished\<rparr>\<rparr>)"
  using afterSelect_terminal_steps [OF assms, of n n sd] by (simp add: startSearch_unfold)

lemma deliver_allFinished: "allFinished w \<Longrightarrow> deliver opts sd rnd w ev = w"
  by (cases ev) (auto simp add: deliver_def allFinished_def list_all_length)

lemma run_allFinished: "allFinished w \<Longrightarrow> foldl (deliver opts sd rnd) w schedule = w"
  by (induction schedule) (simp_all add: deliver_allFinished)


subsection \<open>What every turn preserves\<close>

lemma filter_update_count:
  assumes "i < length ts" and "\<not> P (ts ! i)"
  shows "length (filter P (ts[i := y])) = length (filter P ts) + (if P y then 1 else 0)"
proof -
  have "ts = take i ts @ ts ! i # drop (Suc i) ts" using assms(1) by (simp add: id_take_nth_drop)
  then have a: "filter P ts = filter P (take i ts) @ filter P (drop (Suc i) ts)"
    using assms(2) by (metis filter.simps(2) filter_append)
  have "ts[i := y] = take i ts @ y # drop (Suc i) ts" using assms(1) by (simp add: upd_conv_take_nth_drop)
  then have "filter P (ts[i := y]) = filter P (take i ts) @ filter P (y # drop (Suc i) ts)"
    by simp
  then show ?thesis using a by simp
qed

lemma map_update_same:
  assumes "f y = f (xs ! i)"
  shows "map f (xs[i := y]) = map f xs"
proof (cases "i < length xs")
  case True
  with assms show ?thesis by (simp add: map_update list_update_same_conv)
next
  case False
  then have "length xs \<le> i" by simp
  then show ?thesis by (simp add: list_update_beyond)
qed

lemma path_at: "rootCounts st0 n w \<Longrightarrow> i < n \<Longrightarrow> path (tasks w ! i) = [0]"
proof -
  assume a: "rootCounts st0 n w" "i < n"
  then have l: "i < length (tasks w)" and r: "map path (tasks w) = replicate n [0]"
    by (simp_all add: rootCounts_def)
  have "path (tasks w ! i) = map path (tasks w) ! i" using l by simp
  also have "\<dots> = [0]" unfolding r using a(2) by simp
  finally show ?thesis .
qed

lemma rootCounts_setPhase:
  assumes "rootCounts st0 n w" and "i < n" and "phase (tasks w ! i) \<noteq> Finished" and "ph \<noteq> Finished"
  shows "rootCounts st0 n (setPhase i ph w)"
proof -
  have "finishedCount (setPhase i ph w) = finishedCount w"
    using assms filter_update_count [of i "tasks w" "\<lambda>t. phase t = Finished" "(tasks w ! i)\<lparr>phase := ph\<rparr>"]
    by (simp add: finishedCount_def setPhase_def rootCounts_def)
  moreover have "map path (tasks (setPhase i ph w)) = map path (tasks w)"
    by (simp add: setPhase_def map_update_same)
  ultimately show ?thesis using assms(1) by (simp add: rootCounts_def setPhase_def)
qed

lemma rootCounts_tokens [simp]: "rootCounts st0 n (w\<lparr>completionTokens := x\<rparr>) = rootCounts st0 n w"
  by (simp add: rootCounts_def finishedCount_def)

lemma rootCounts_randomCalls [simp]: "rootCounts st0 n (w\<lparr>randomCalls := x\<rparr>) = rootCounts st0 n w"
  by (simp add: rootCounts_def finishedCount_def)

lemma tasks_tokens [simp]: "tasks (w\<lparr>completionTokens := x\<rparr>) = tasks w"
  by simp

lemma rootCounts_markFullyExpanded:
  "rootCounts st0 n w \<Longrightarrow> rootCounts st0 n (markFullyExpanded leaf w)"
  by (simp add: rootCounts_def markFullyExpanded_def finishedCount_def map_update_same)

lemma tasks_markFullyExpanded [simp]: "tasks (markFullyExpanded leaf w) = tasks w"
  by (simp add: markFullyExpanded_def)

lemma attachChildren_tasks [simp]: "tasks (attachChildren node as ps (w :: Search)) = tasks w"
  by (induction node as ps w rule: attachChildren.induct) (simp_all add: Let_def split: option.splits)

lemma attachChildren_visits:
  "\<exists>k. map visits (nodes (attachChildren node as ps m)) = map visits (nodes m) @ replicate k 0"
proof (induction node as ps m rule: attachChildren.induct)
  case (1 node priors m)
  show ?case by (simp add: exI [of _ 0])
next
  case (2 node a as priors m)
  let ?st = "withNewMessage (state (nodes m ! node)) Assistant a"
  show ?case
  proof (cases "transpositionTable m (hash ?st)")
    case None
    from 2 [OF refl refl refl refl refl] None
    obtain k where "map visits (nodes (attachChildren node (a # as) priors m))
        = map visits (nodes m) @ replicate (Suc k) 0"
      by (auto simp add: Let_def map_update_same newNode_def replicate_app_Cons_same)
    then show ?thesis by blast
  next
    case (Some c)
    from 2 [OF refl refl refl refl refl] Some
    show ?thesis by (auto simp add: Let_def map_update_same)
  qed
qed

lemma attachChildren_state:
  "\<exists>sts. map state (nodes (attachChildren node as ps m)) = map state (nodes m) @ sts"
proof (induction node as ps m rule: attachChildren.induct)
  case (1 node priors m)
  show ?case by simp
next
  case (2 node a as priors m)
  let ?st = "withNewMessage (state (nodes m ! node)) Assistant a"
  show ?case
  proof (cases "transpositionTable m (hash ?st)")
    case None
    from 2 [OF refl refl refl refl refl] None
    show ?thesis by (auto simp add: Let_def map_update_same)
  next
    case (Some c)
    from 2 [OF refl refl refl refl refl] Some
    show ?thesis by (auto simp add: Let_def map_update_same)
  qed
qed

lemma rootCounts_attachChildren:
  assumes "rootCounts st0 n w"
  shows "rootCounts st0 n (attachChildren node as ps w)"
proof -
  obtain k where k: "map visits (nodes (attachChildren node as ps w)) = map visits (nodes w) @ replicate k 0"
    using attachChildren_visits by blast
  obtain sts where s: "map state (nodes (attachChildren node as ps w)) = map state (nodes w) @ sts"
    using attachChildren_state by blast
  from assms obtain k0 sts0 where
    "map visits (nodes w) = finishedCount w # replicate k0 0" "map state (nodes w) = st0 # sts0"
    by (auto simp add: rootCounts_def)
  then have "map visits (nodes (attachChildren node as ps w)) = finishedCount w # replicate (k0 + k) 0"
    and "map state (nodes (attachChildren node as ps w)) = st0 # (sts0 @ sts)"
    using k s by (simp_all add: replicate_add)
  moreover have "finishedCount (attachChildren node as ps w) = finishedCount w"
    by (simp add: finishedCount_def)
  ultimately show ?thesis using assms by (auto simp add: rootCounts_def)
qed

lemma rootCounts_finishSimulation:
  assumes "rootCounts st0 n w" and "i < n" and "phase (tasks w ! i) \<noteq> Finished"
  shows "rootCounts st0 n (finishSimulation opts i d acc w)"
proof -
  let ?v = "jdiv acc (Num (if d = 0 then 1 else real d))"
  let ?w1 = "visitNode opts ?v w 0"
  have p: "path (tasks w ! i) = [0]" using path_at [OF assms(1,2)] .
  have fs: "finishSimulation opts i d acc w = setPhase i Finished ?w1"
    by (simp add: finishSimulation_def backpropagate_def p)
  from assms(1) obtain k sts where
    v: "map visits (nodes w) = finishedCount w # replicate k 0" and s: "map state (nodes w) = st0 # sts"
    by (auto simp add: rootCounts_def)
  from v have ne: "nodes w \<noteq> []" by auto
  then have v0: "visits (nodes w ! 0) = finishedCount w"
    using v by (cases "nodes w") auto
  have v1: "map visits (nodes ?w1) = Suc (finishedCount w) # replicate k 0"
    using v v0 ne by (cases "nodes w") (auto simp add: visitNode_def addVisit_def addRaveData_def)
  have s1: "map state (nodes ?w1) = st0 # sts"
    using s by (simp add: visitNode_def addVisit_def addRaveData_def map_update_same)
  have t1: "tasks ?w1 = tasks w" by (simp add: visitNode_def)
  have c: "finishedCount (setPhase i Finished ?w1) = Suc (finishedCount w)"
    using assms filter_update_count [of i "tasks w" "\<lambda>t. phase t = Finished" "(tasks w ! i)\<lparr>phase := Finished\<rparr>"]
    by (simp add: finishedCount_def setPhase_def t1 rootCounts_def)
  have m: "map path (tasks (setPhase i Finished ?w1)) = map path (tasks w)"
    by (simp add: setPhase_def t1 map_update_same)
  show ?thesis
    unfolding fs rootCounts_def using assms(1) c m v1 s1
    by (auto simp add: rootCounts_def setPhase_def t1)
qed

lemma rootCounts_simulateLoop:
  assumes "rootCounts st0 n w" and "i < n" and "phase (tasks w ! i) \<noteq> Finished"
  shows "rootCounts st0 n (simulateLoop opts sd i cs d acc w)"
  using assms by (simp add: simulateLoop_def rootCounts_finishSimulation rootCounts_setPhase)

lemma rootCounts_rolloutActions:
  assumes "rootCounts st0 n w" and "i < n" and "phase (tasks w ! i) \<noteq> Finished"
  shows "rootCounts st0 n (rolloutActions opts rnd i cs d acc actions w)"
  using assms
  by (simp add: rolloutActions_def Let_def rootCounts_finishSimulation rootCounts_setPhase)

lemma rootCounts_rolloutEvaluated:
  assumes "rootCounts st0 n w" and "i < n" and "phase (tasks w ! i) \<noteq> Finished"
  shows "rootCounts st0 n (rolloutEvaluated opts sd i cs d acc r w)"
  using assms
  by (simp add: rolloutEvaluated_def rootCounts_simulateLoop split: prod.splits)

lemma rootCounts_expandActions:
  assumes "rootCounts st0 n w" and "i < n" and "phase (tasks w ! i) \<noteq> Finished"
  shows "rootCounts st0 n (expandActions opts sd i actions w)"
  using assms
  by (simp add: expandActions_def Let_def rootCounts_simulateLoop rootCounts_setPhase
        rootCounts_markFullyExpanded)

lemma rootCounts_expandPriors:
  assumes "rootCounts st0 n w" and "i < n" and "phase (tasks w ! i) \<noteq> Finished"
  shows "rootCounts st0 n (expandPriors opts sd i actions r w)"
  using assms
  by (simp add: expandPriors_def Let_def rootCounts_simulateLoop rootCounts_markFullyExpanded
        rootCounts_attachChildren split: prod.splits)

lemma rootCounts_deliver:
  assumes "rootCounts st0 n w"
  shows "rootCounts st0 n (deliver opts sd rnd w ev)"
proof (cases ev)
  case (Pair i r)
  show ?thesis
  proof (cases "i < length (tasks w)")
    case False
    then show ?thesis using assms Pair by (simp add: deliver_def)
  next
    case True
    then have i: "i < n" using assms by (simp add: rootCounts_def)
    show ?thesis
    proof (cases "phase (tasks w ! i)")
      case Selected
      then show ?thesis using assms Pair True by (simp add: deliver_def)
    next
      case (GenerateActions k completions)
      then have nf: "phase (tasks w ! i) \<noteq> Finished" by simp
      show ?thesis
        using assms i nf Pair True GenerateActions
        by (auto simp add: deliver_def rootCounts_setPhase rootCounts_expandActions
              rootCounts_rolloutActions split: prod.splits sum.splits continuation.splits)
    next
      case (CalculatePriors actions)
      then have nf: "phase (tasks w ! i) \<noteq> Finished" by simp
      show ?thesis
        using assms i nf Pair True CalculatePriors
        by (simp add: deliver_def rootCounts_expandPriors)
    next
      case (Evaluate cs d acc)
      then have nf: "phase (tasks w ! i) \<noteq> Finished" by simp
      show ?thesis
        using assms i nf Pair True Evaluate
        by (simp add: deliver_def rootCounts_rolloutEvaluated)
    next
      case Finished
      then show ?thesis using assms Pair True by (simp add: deliver_def)
    qed
  qed
qed

lemma rootCounts_run:
  "rootCounts st0 n w \<Longrightarrow> rootCounts st0 n (foldl (deliver opts sd rnd) w schedule)"
  by (induction schedule arbitrary: w) (simp_all add: rootCounts_deliver)

lemma rootCounts_afterSelect:
  assumes "rootCounts st0 n w" and "i < n" and "phase (tasks w ! i) = Selected"
    and "\<not> isTerminal opts st0"
  shows "rootCounts st0 n (afterSelect opts sd w i)"
proof -
  have p: "path (tasks w ! i) = [0]" using path_at [OF assms(1,2)] .
  from assms(1) obtain sts where "map state (nodes w) = st0 # sts" by (auto simp add: rootCounts_def)
  then have s: "state (nodes w ! 0) = st0" by (cases "nodes w") auto
  have nf: "phase (tasks w ! i) \<noteq> Finished" using assms(3) by simp
  show ?thesis
    using assms(1,2,4) nf p s
    by (simp add: afterSelect_def rootCounts_setPhase rootCounts_expandActions)
qed

lemma tasks_backpropagate [simp]: "tasks (backpropagate opts p v (w :: Search)) = tasks w"
proof -
  have "tasks (foldl (visitNode opts v) w xs) = tasks w" for xs
    by (induction xs arbitrary: w) (simp_all add: visitNode_def)
  then show ?thesis by (simp add: backpropagate_def)
qed

lemma afterSelect_other_tasks:
  "j \<noteq> i \<Longrightarrow> tasks (afterSelect opts sd w i) ! j = tasks w ! j"
  by (simp add: afterSelect_def expandActions_def simulateLoop_def finishSimulation_def
        setPhase_def Let_def)

lemma afterSelect_length [simp]: "length (tasks (afterSelect opts sd w i)) = length (tasks w)"
  by (simp add: afterSelect_def expandActions_def simulateLoop_def finishSimulation_def
        setPhase_def Let_def)

lemma rootCounts_initial:
  "rootCounts st n ((initialSearch st)\<lparr>tasks := replicate n \<lparr>path = [0], phase = Selected\<rparr>\<rparr>)"
  by (simp add: rootCounts_def finishedCount_def initialSearch_def newNode_def)

lemma afterSelect_nonterminal_steps:
  assumes "\<not> isTerminal opts st" and "k \<le> n"
  shows "rootCounts st n (foldl (afterSelect opts sd)
           ((initialSearch st)\<lparr>tasks := replicate n \<lparr>path = [0], phase = Selected\<rparr>\<rparr>) [0..<k])
       \<and> (\<forall>j. k \<le> j \<and> j < n \<longrightarrow>
            phase (tasks (foldl (afterSelect opts sd)
              ((initialSearch st)\<lparr>tasks := replicate n \<lparr>path = [0], phase = Selected\<rparr>\<rparr>) [0..<k]) ! j)
              = Selected)"
  using assms(2)
proof (induction k)
  case 0
  then show ?case by (simp add: rootCounts_initial)
next
  case (Suc k)
  let ?w = "foldl (afterSelect opts sd)
              ((initialSearch st)\<lparr>tasks := replicate n \<lparr>path = [0], phase = Selected\<rparr>\<rparr>) [0..<k]"
  from Suc have k: "k < n" and rc: "rootCounts st n ?w"
    and sel: "\<forall>j. k \<le> j \<and> j < n \<longrightarrow> phase (tasks ?w ! j) = Selected"
    by simp_all
  from sel k have "phase (tasks ?w ! k) = Selected" by simp
  from rootCounts_afterSelect [OF rc k this assms(1)]
  have "rootCounts st n (afterSelect opts sd ?w k)" .
  moreover have "\<forall>j. Suc k \<le> j \<and> j < n \<longrightarrow> phase (tasks (afterSelect opts sd ?w k) ! j) = Selected"
    using sel by (simp add: afterSelect_other_tasks)
  ultimately show ?case by simp
qed

lemma startSearch_nonterminal:
  assumes "\<not> isTerminal opts st"
  shows "\<exists>w. startSearch opts sd n st = Some w \<and> rootCounts st n w"
  using afterSelect_nonterminal_steps [OF assms, of n n sd] by (simp add: startSearch_unfold)

lemma runSearch_terminal:
  assumes "isTerminal opts st"
  shows "runSearch opts sd n rnd st schedule
           = Some ((initialSearch st)\<lparr>tasks := replicate n \<lparr>path = [0], phase = Finished\<rparr>\<rparr>)"
proof -
  let ?w = "(initialSearch st)\<lparr>tasks := replicate n \<lparr>path = [0], phase = Finished\<rparr>\<rparr>"
  have fin: "allFinished ?w" by (simp add: allFinished_def list_all_length)
  show ?thesis
    by (simp add: runSearch_def startSearch_terminal [OF assms] run_allFinished [OF fin])
qed

lemma rootCounts_allFinished:
  assumes "rootCounts st n w" and "allFinished w"
  shows "visits (nodes w ! 0) = n"
proof -
  from assms(2) have "filter (\<lambda>t. phase t = Finished) (tasks w) = tasks w"
    by (simp add: allFinished_def list_all_iff)
  then have "finishedCount w = n" using assms(1) by (simp add: finishedCount_def rootCounts_def)
  moreover from assms(1) obtain k where "map visits (nodes w) = finishedCount w # replicate k 0"
    by (auto simp add: rootCounts_def)
  then have "visits (nodes w ! 0) = finishedCount w" by (cases "nodes w") auto
  ultimately show ?thesis by simp
qed


subsection \<open>The trees of a search\<close>

text \<open>
  \<open>expand\<close> takes a child from the transposition table or creates it, one turn deeper
  than the expanded node. Nothing else changes a child list, a state or the table.
\<close>

lemma wellFormedTree_iff:
  "wellFormedTree m \<longleftrightarrow>
     (\<forall>i<length (nodes m). \<forall>c \<in> set (children (nodes m ! i)).
        c < length (nodes m) \<and> depth (state (nodes m ! c)) = Suc (depth (state (nodes m ! i))))"
  by (simp add: wellFormedTree_def list_all_length all_set_conv_all_nth)

lemma wellFormedTree_initial: "wellFormedTree (initialSearch st)"
  by (simp add: wellFormedTree_def initialSearch_def newNode_def)

lemma tableConsistent_initial: "tableConsistent (initialSearch st)"
  by (simp add: tableConsistent_def initialSearch_def newNode_def)

lemma wellFormedTree_new_node:
  assumes wf: "wellFormedTree m"
  shows "wellFormedTree (m\<lparr>nodes := nodes m @ [newNode st p a], transpositionTable := t\<rparr>)"
proof -
  let ?ns = "nodes m @ [newNode st p a]"
  have "c < length ?ns \<and> depth (state (?ns ! c)) = Suc (depth (state (?ns ! i)))"
    if i: "i < length ?ns" and c: "c \<in> set (children (?ns ! i))" for i c
  proof (cases "i < length (nodes m)")
    case True
    then have "c \<in> set (children (nodes m ! i))" using c by (simp add: nth_append)
    with wf True have "c < length (nodes m)"
      and "depth (state (nodes m ! c)) = Suc (depth (state (nodes m ! i)))"
      unfolding wellFormedTree_iff by blast+
    then show ?thesis using True by (simp add: nth_append)
  next
    case False
    then have "i = length (nodes m)" using i by simp
    then have "children (?ns ! i) = []" by (simp add: newNode_def)
    with c show ?thesis by simp
  qed
  then show ?thesis unfolding wellFormedTree_iff by simp
qed

lemma wellFormedTree_add_child:
  assumes wf: "wellFormedTree m" and n: "node < length (nodes m)" and c: "c < length (nodes m)"
    and d: "depth (state (nodes m ! c)) = Suc (depth (state (nodes m ! node)))"
  shows "wellFormedTree
           (m\<lparr>nodes := (nodes m)[node := (nodes m ! node)\<lparr>children := children (nodes m ! node) @ [c]\<rparr>],
              actionPriors := ap\<rparr>)"
proof -
  let ?ns = "(nodes m)[node := (nodes m ! node)\<lparr>children := children (nodes m ! node) @ [c]\<rparr>]"
  have st: "state (?ns ! j) = state (nodes m ! j)" if "j < length (nodes m)" for j
    using n by (cases "j = node") simp_all
  have "e < length ?ns \<and> depth (state (?ns ! e)) = Suc (depth (state (?ns ! i)))"
    if i: "i < length ?ns" and e: "e \<in> set (children (?ns ! i))" for i e
  proof -
    from i have i': "i < length (nodes m)" by simp
    have "e \<in> set (children (nodes m ! i)) \<or> (i = node \<and> e = c)"
      using e i' n by (cases "i = node") auto
    then have "e < length (nodes m) \<and> depth (state (nodes m ! e)) = Suc (depth (state (nodes m ! i)))"
    proof
      assume "e \<in> set (children (nodes m ! i))"
      with wf i' show ?thesis unfolding wellFormedTree_iff by blast
    next
      assume "i = node \<and> e = c"
      with c d show ?thesis by simp
    qed
    then show ?thesis using st [of e] st [OF i'] by simp
  qed
  then show ?thesis unfolding wellFormedTree_iff by simp
qed

lemma tableConsistent_new_node:
  assumes tc: "tableConsistent m"
  shows "tableConsistent
           (m\<lparr>nodes := nodes m @ [newNode st p a],
              transpositionTable := (transpositionTable m)(hash st \<mapsto> length (nodes m))\<rparr>)"
proof -
  let ?ns = "nodes m @ [newNode st p a]"
  have "c < length ?ns \<and> hash (state (?ns ! c)) = h"
    if "((transpositionTable m)(hash st \<mapsto> length (nodes m))) h = Some c" for h c
  proof (cases "h = hash st")
    case True
    with that have "c = length (nodes m)" by simp
    then show ?thesis using True by (simp add: newNode_def)
  next
    case False
    with that have "transpositionTable m h = Some c" by simp
    with tc have "c < length (nodes m)" and "hash (state (nodes m ! c)) = h"
      unfolding tableConsistent_def by blast+
    then show ?thesis by (simp add: nth_append)
  qed
  then show ?thesis unfolding tableConsistent_def by simp
qed

lemma tableConsistent_add_child:
  assumes tc: "tableConsistent m"
  shows "tableConsistent
           (m\<lparr>nodes := (nodes m)[node := (nodes m ! node)\<lparr>children := cs\<rparr>],
              actionPriors := ap\<rparr>)"
proof -
  let ?ns = "(nodes m)[node := (nodes m ! node)\<lparr>children := cs\<rparr>]"
  have "c < length ?ns \<and> hash (state (?ns ! c)) = h" if "transpositionTable m h = Some c" for h c
  proof -
    from tc that have "c < length (nodes m)" and "hash (state (nodes m ! c)) = h"
      unfolding tableConsistent_def by blast+
    then show ?thesis by (cases "c = node") simp_all
  qed
  then show ?thesis unfolding tableConsistent_def by simp
qed

text \<open>
  The loop of \<open>expand\<close> keeps the arena a tree: a child taken from the transposition
  table has the hash of the new state, hence its depth.
\<close>

lemma attachChildren_wellFormed:
  assumes "wellFormedTree m" and "tableConsistent m" and "node < length (nodes m)"
  shows "wellFormedTree (attachChildren node as ps m)
       \<and> tableConsistent (attachChildren node as ps m)
       \<and> length (nodes m) \<le> length (nodes (attachChildren node as ps m))"
  using assms
proof (induction node as ps m rule: attachChildren.induct)
  case (1 node priors m)
  then show ?case by simp
next
  case (2 node a as priors m)
  let ?st = "withNewMessage (state (nodes m ! node)) Assistant a"
  let ?ap = "(actionPriors m)(a := (case priors of [] \<Rightarrow> None | p # _ \<Rightarrow> Some p))"
  have dst: "depth ?st = Suc (depth (state (nodes m ! node)))" by (simp add: withNewMessage_def)
  show ?case
  proof (cases "transpositionTable m (hash ?st)")
    case None
    let ?m1 = "m\<lparr>nodes := nodes m @ [newNode ?st (Some node) (Some a)],
                  transpositionTable := (transpositionTable m)(hash ?st \<mapsto> length (nodes m))\<rparr>"
    let ?m2 = "?m1\<lparr>nodes := (nodes ?m1)
                      [node := (nodes ?m1 ! node)\<lparr>children := children (nodes ?m1 ! node) @ [length (nodes m)]\<rparr>],
                    actionPriors := ?ap\<rparr>"
    have wf1: "wellFormedTree ?m1" by (rule wellFormedTree_new_node [OF "2.prems"(1)])
    have tc1: "tableConsistent ?m1" by (rule tableConsistent_new_node [OF "2.prems"(2)])
    have n1: "node < length (nodes ?m1)" using "2.prems"(3) by simp
    have c1: "length (nodes m) < length (nodes ?m1)" by simp
    have d1: "depth (state (nodes ?m1 ! length (nodes m))) = Suc (depth (state (nodes ?m1 ! node)))"
      using "2.prems"(3) dst by (simp add: nth_append newNode_def)
    have wf2: "wellFormedTree ?m2"
      using wellFormedTree_add_child [OF wf1 n1 c1 d1, where ap = ?ap] by simp
    have tc2: "tableConsistent ?m2"
      using tableConsistent_add_child
              [OF tc1, where node = node and cs = "children (nodes ?m1 ! node) @ [length (nodes m)]"
                 and ap = ?ap]
      by simp
    have n2: "node < length (nodes ?m2)" using "2.prems"(3) by simp
    have "wellFormedTree (attachChildren node as (tl priors) ?m2)
          \<and> tableConsistent (attachChildren node as (tl priors) ?m2)
          \<and> length (nodes ?m2) \<le> length (nodes (attachChildren node as (tl priors) ?m2))"
      using "2.IH" [OF refl refl refl refl refl] None wf2 tc2 n2 by (simp add: Let_def)
    then show ?thesis using None by (simp add: Let_def)
  next
    case (Some c)
    let ?m2 = "m\<lparr>nodes := (nodes m)
                      [node := (nodes m ! node)\<lparr>children := children (nodes m ! node) @ [c]\<rparr>],
                  actionPriors := ?ap\<rparr>"
    from "2.prems"(2) Some have c: "c < length (nodes m)" and h: "hash (state (nodes m ! c)) = hash ?st"
      unfolding tableConsistent_def by blast+
    have d: "depth (state (nodes m ! c)) = Suc (depth (state (nodes m ! node)))"
      using hash_depth [OF h] dst by simp
    have wf2: "wellFormedTree ?m2"
      by (rule wellFormedTree_add_child [OF "2.prems"(1,3) c d])
    have tc2: "tableConsistent ?m2"
      by (rule tableConsistent_add_child [OF "2.prems"(2)])
    have n2: "node < length (nodes ?m2)" using "2.prems"(3) by simp
    have "wellFormedTree (attachChildren node as (tl priors) ?m2)
          \<and> tableConsistent (attachChildren node as (tl priors) ?m2)
          \<and> length (nodes ?m2) \<le> length (nodes (attachChildren node as (tl priors) ?m2))"
      using "2.IH" [OF refl refl refl refl refl] Some wf2 tc2 n2 by (simp add: Let_def)
    then show ?thesis using Some by (simp add: Let_def)
  qed
qed

lemma treeInvariant_node_update:
  assumes "children x = children (nodes m ! j)" and "state x = state (nodes m ! j)"
  shows "treeInvariant (m\<lparr>nodes := (nodes m)[j := x]\<rparr>) = treeInvariant m"
proof (cases "j < length (nodes m)")
  case False
  then show ?thesis by (simp add: list_update_beyond)
next
  case True
  have st: "state ((nodes m)[j := x] ! k) = state (nodes m ! k)" for k
    using True assms by (cases "k = j") simp_all
  have ch: "children ((nodes m)[j := x] ! k) = children (nodes m ! k)" for k
    using True assms by (cases "k = j") simp_all
  show ?thesis
    unfolding treeInvariant_def wellFormedTree_iff tableConsistent_def by (simp add: st ch)
qed

lemma treeInvariant_tokens [simp]:
  "treeInvariant (m\<lparr>completionTokens := x\<rparr>) = treeInvariant m"
  by (simp add: treeInvariant_def wellFormedTree_def tableConsistent_def)

lemma treeInvariant_randomCalls [simp]:
  "treeInvariant ((w :: Search)\<lparr>randomCalls := x\<rparr>) = treeInvariant w"
  by (simp add: treeInvariant_def wellFormedTree_def tableConsistent_def)

lemma treeInvariant_setPhase [simp]: "treeInvariant (setPhase i ph w) = treeInvariant w"
  by (simp add: setPhase_def treeInvariant_def wellFormedTree_def tableConsistent_def)

lemma treeInvariant_markFullyExpanded [simp]:
  "treeInvariant (markFullyExpanded leaf m) = treeInvariant m"
  unfolding markFullyExpanded_def by (rule treeInvariant_node_update) simp_all

lemma treeInvariant_visitNode [simp]: "treeInvariant (visitNode opts v m node) = treeInvariant m"
  unfolding visitNode_def
  by (rule treeInvariant_node_update) (simp_all add: addVisit_def addRaveData_def)

lemma treeInvariant_backpropagate [simp]:
  "treeInvariant (backpropagate opts p v m) = treeInvariant m"
proof -
  have "treeInvariant (foldl (visitNode opts v) m xs) = treeInvariant m" for xs
    by (induction xs arbitrary: m) simp_all
  then show ?thesis by (simp add: backpropagate_def)
qed

lemma treeInvariant_finishSimulation [simp]:
  "treeInvariant (finishSimulation opts i d acc w) = treeInvariant w"
  by (simp add: finishSimulation_def)

lemma treeInvariant_simulateLoop [simp]:
  "treeInvariant (simulateLoop opts sd i cs d acc w) = treeInvariant w"
  by (simp add: simulateLoop_def)

lemma treeInvariant_rolloutActions [simp]:
  "treeInvariant (rolloutActions opts rnd i cs d acc actions w) = treeInvariant w"
  by (simp add: rolloutActions_def Let_def)

lemma treeInvariant_rolloutEvaluated [simp]:
  "treeInvariant (rolloutEvaluated opts sd i cs d acc r w) = treeInvariant w"
  by (simp add: rolloutEvaluated_def split: prod.splits)

lemma treeInvariant_expandActions [simp]:
  "treeInvariant (expandActions opts sd i actions w) = treeInvariant w"
  by (simp add: expandActions_def Let_def)

lemma treeInvariant_afterSelect [simp]:
  "treeInvariant (afterSelect opts sd w i) = treeInvariant w"
  by (simp add: afterSelect_def Let_def)

lemma treeInvariant_attachChildren:
  assumes "treeInvariant m" and "node < length (nodes m)"
  shows "treeInvariant (attachChildren node as ps m)"
  using attachChildren_wellFormed [of m node as ps] assms by (simp add: treeInvariant_def)

lemma treeInvariant_expandPriors:
  assumes "treeInvariant w" and "last (path (tasks w ! i)) < length (nodes w)"
  shows "treeInvariant (expandPriors opts sd i actions r w)"
  using assms
  by (simp add: expandPriors_def Let_def treeInvariant_attachChildren split: prod.splits)

lemma treeInvariant_deliver:
  assumes "treeInvariant w" and "rootCounts st0 n w"
  shows "treeInvariant (deliver opts sd rnd w ev)"
proof (cases ev)
  case (Pair i r)
  show ?thesis
  proof (cases "i < length (tasks w)")
    case False
    then show ?thesis using assms Pair by (simp add: deliver_def)
  next
    case True
    then have i: "i < n" using assms(2) by (simp add: rootCounts_def)
    have "nodes w \<noteq> []" using assms(2) by (auto simp add: rootCounts_def)
    then have leaf: "last (path (tasks w ! i)) < length (nodes w)"
      using path_at [OF assms(2) i] by simp
    show ?thesis
      using assms(1) Pair True leaf
      by (auto simp add: deliver_def treeInvariant_expandPriors
            split: phase.splits prod.splits sum.splits continuation.splits)
  qed
qed

lemma treeInvariant_initial:
  "treeInvariant ((initialSearch st)\<lparr>tasks := ts\<rparr>)"
  by (simp add: treeInvariant_def wellFormedTree_def tableConsistent_def initialSearch_def
        newNode_def)

lemma treeInvariant_run:
  "treeInvariant w \<Longrightarrow> rootCounts st0 n w \<Longrightarrow> treeInvariant (foldl (deliver opts sd rnd) w schedule)"
  by (induction schedule arbitrary: w) (simp_all add: treeInvariant_deliver rootCounts_deliver)

lemma treeInvariant_start:
  assumes "startSearch opts sd n st = Some w"
  shows "treeInvariant w"
proof -
  have "treeInvariant (foldl (afterSelect opts sd) w0 xs) = treeInvariant w0" for w0 xs
    by (induction xs arbitrary: w0) simp_all
  then show ?thesis using assms by (auto simp add: startSearch_unfold treeInvariant_initial)
qed

text \<open>
  Every instance that a search reaches, under any options, random source and schedule,
  holds a tree in the sense of \<open>wellFormedTree\<close>.
\<close>

lemma search_builds_wellFormedTree:
  assumes "runSearch opts sd n rnd st schedule = Some w"
  shows "wellFormedTree w"
proof (cases "isTerminal opts st")
  case True
  from runSearch_terminal [OF True, of sd n rnd schedule] assms
  have "w = (initialSearch st)\<lparr>tasks := replicate n \<lparr>path = [0], phase = Finished\<rparr>\<rparr>" by simp
  then show ?thesis using treeInvariant_initial [where st = st] by (simp add: treeInvariant_def)
next
  case False
  from startSearch_nonterminal [OF False, of sd n]
  obtain w0 where w0: "startSearch opts sd n st = Some w0" and rc: "rootCounts st n w0" by blast
  have "treeInvariant w0" by (rule treeInvariant_start [OF w0])
  then have "treeInvariant (foldl (deliver opts sd rnd) w0 schedule)"
    using rc by (rule treeInvariant_run)
  moreover have "w = foldl (deliver opts sd rnd) w0 schedule"
    using assms w0 by (simp add: runSearch_def)
  ultimately show ?thesis by (simp add: treeInvariant_def)
qed

subsection \<open>The search under the stub oracle\<close>

lemma scenario_fields [simp]:
  "maxChildren scenarioOptions = 2" "useRAVE scenarioOptions" "maxDepth scenarioOptions = 1"
  by (simp_all add: scenarioOptions_def)

lemma scenario_child [simp]: "isTerminal scenarioOptions (withNewMessage st Assistant a)"
  by (simp add: isTerminal_def withNewMessage_def)

lemma priors_reply [simp]:
  "calculateActionPriors (Completion [CHR ''0'', CHR 0x0A, CHR ''0''] u) actions tokens
     = ([Num (1 / 2), Num (1 / 2)], tokens + u)"
  by (simp add: calculateActionPriors_def ratingScores_two_zeros softmax_def jsum_def)

text \<open>The stub judges a state that ends with \<open>A\<close> as 1.0 and one that ends with \<open>B\<close> as 0.0.\<close>

lemma stubOracle_evaluate:
  "fst (evaluate (stubOracle (Evaluate (withNewMessage st Assistant ''A'') d acc))
          (withNewMessage st Assistant ''A'') tokens) = Num 1"
  "fst (evaluate (stubOracle (Evaluate (withNewMessage st Assistant ''B'') d acc))
          (withNewMessage st Assistant ''B'') tokens) = Num 0"
  by (simp_all add: stubOracle_def withNewMessage_def evaluate_def elemAt_def clampRating_def
        parse_defs Let_def)

lemma finishedCount_setPhase:
  assumes "i < length (tasks w)" and "phase (tasks w ! i) \<noteq> Finished"
  shows "finishedCount (setPhase i ph w) = finishedCount w + (if ph = Finished then 1 else 0)"
  using assms filter_update_count [of i "tasks w" "\<lambda>t. phase t = Finished" "(tasks w ! i)\<lparr>phase := ph\<rparr>"]
  by (simp add: finishedCount_def setPhase_def)

lemma deliver_other_tasks:
  "j \<noteq> i \<Longrightarrow> tasks (deliver opts sd rnd w (i, r)) ! j = tasks w ! j"
  by (simp add: deliver_def expandActions_def expandPriors_def rolloutActions_def
        rolloutEvaluated_def simulateLoop_def finishSimulation_def setPhase_def Let_def
        split: phase.splits prod.splits sum.splits continuation.splits)

lemma deliver_out_of_range: "length (tasks w) \<le> i \<Longrightarrow> deliver opts sd rnd w (i, r) = w"
  by (simp add: deliver_def)

lemma afterSelect_exact_steps:
  assumes "isTerminal opts st \<or> 0 < maxChildren opts" and "k \<le> n"
  shows "foldl (afterSelect opts sd)
           ((initialSearch st)\<lparr>tasks := replicate n \<lparr>path = [0], phase = Selected\<rparr>\<rparr>) [0..<k]
         = (initialSearch st)
             \<lparr>tasks := replicate k \<lparr>path = [0],
                          phase = (if isTerminal opts st then Finished else GenerateActions ExpandLeaf [])\<rparr>
                        @ replicate (n - k) \<lparr>path = [0], phase = Selected\<rparr>\<rparr>"
  using assms(2)
proof (induction k)
  case 0
  then show ?case by simp
next
  case (Suc k)
  let ?done = "\<lparr>path = [0], phase = (if isTerminal opts st then Finished else GenerateActions ExpandLeaf [])\<rparr>"
  from Suc have k: "k < n" by simp
  have nth: "(replicate k ?done @ replicate (n - k) \<lparr>path = [0], phase = Selected\<rparr>) ! k
               = \<lparr>path = [0], phase = Selected\<rparr>"
    using k by (simp add: nth_append)
  have root: "state (nodes (initialSearch st) ! 0) = st"
    by (simp add: initialSearch_def newNode_def)
  show ?case
    using Suc.IH k assms(1) nth root
      replicate_update_next [OF k, of ?done "\<lparr>path = [0], phase = Selected\<rparr>"]
    by (auto simp add: afterSelect_def setPhase_def)
qed

lemma startSearch_exact:
  assumes "isTerminal opts st \<or> 0 < maxChildren opts"
  shows "startSearch opts sd n st
           = Some ((initialSearch st)
                    \<lparr>tasks := replicate n \<lparr>path = [0],
                       phase = (if isTerminal opts st then Finished else GenerateActions ExpandLeaf [])\<rparr>\<rparr>)"
  using afterSelect_exact_steps [OF assms, of n n sd] by (simp add: startSearch_unfold)

lemma hash_children_distinct [simp]:
  "hash (withNewMessage st Assistant ''A'') \<noteq> hash (withNewMessage st Assistant ''B'')"
  "hash (withNewMessage st Assistant ''B'') \<noteq> hash (withNewMessage st Assistant ''A'')"
  by (simp_all add: hash_def withNewMessage_def)

lemma treeShape_tokens [simp]: "treeShape st (w\<lparr>completionTokens := x\<rparr>) = treeShape st w"
  by (simp add: treeShape_def finishedCount_def)

lemma treeShape_setPhase:
  assumes "treeShape st w" and "i < length (tasks w)"
    and "phase (tasks w ! i) \<noteq> Finished" and "ph \<noteq> Finished"
  shows "treeShape st (setPhase i ph w)"
proof -
  have "finishedCount (setPhase i ph w) = finishedCount w"
    using finishedCount_setPhase [OF assms(2,3), of ph] assms(4) by simp
  moreover have "nodes (setPhase i ph w) = nodes w"
    "transpositionTable (setPhase i ph w) = transpositionTable w"
    by (simp_all add: setPhase_def)
  ultimately show ?thesis using assms(1) by (simp add: treeShape_def)
qed

text \<open>The expansion step on the unexpanded and on the expanded tree.\<close>

lemma expand_first:
  assumes "nodes w = [r]" and "children r = []" and "state r = st"
    and "transpositionTable w (hash (withNewMessage st Assistant ''A'')) = None"
    and "transpositionTable w (hash (withNewMessage st Assistant ''B'')) = None"
  shows "nodes (attachChildren 0 [''A'', ''B''] ps w)
           = [r\<lparr>children := [1, 2]\<rparr>,
              newNode (withNewMessage st Assistant ''A'') (Some 0) (Some ''A''),
              newNode (withNewMessage st Assistant ''B'') (Some 0) (Some ''B'')]
       \<and> transpositionTable (attachChildren 0 [''A'', ''B''] ps w) (hash (withNewMessage st Assistant ''A'')) = Some 1
       \<and> transpositionTable (attachChildren 0 [''A'', ''B''] ps w) (hash (withNewMessage st Assistant ''B'')) = Some 2"
  using assms by (simp add: Let_def)

lemma expand_again:
  assumes "nodes w = [r, a, b]" and "state r = st"
    and "transpositionTable w (hash (withNewMessage st Assistant ''A'')) = Some 1"
    and "transpositionTable w (hash (withNewMessage st Assistant ''B'')) = Some 2"
  shows "nodes (attachChildren 0 [''A'', ''B''] ps w) = [r\<lparr>children := children r @ [1, 2]\<rparr>, a, b]
       \<and> transpositionTable (attachChildren 0 [''A'', ''B''] ps w) = transpositionTable w"
  using assms by (simp add: Let_def)

lemma root_state: "rootCounts st n w \<Longrightarrow> nodes w = r # rest \<Longrightarrow> state r = st"
  by (auto simp add: rootCounts_def)

lemma concat_replicate_Suc: "concat (replicate k xs) @ xs = concat (replicate (Suc k) xs)"
  by (induction k) simp_all

lemma priors_step:
  assumes rc: "rootCounts st n w" and ts: "treeShape st w" and i: "i < n"
    and ph: "phase (tasks w ! i) = CalculatePriors [''A'', ''B'']"
  shows "treeShape st
           (deliver scenarioOptions sd rnd w (i, Completion [CHR ''0'', CHR 0x0A, CHR ''0''] 0))
       \<and> phase (tasks (deliver scenarioOptions sd rnd w
                        (i, Completion [CHR ''0'', CHR 0x0A, CHR ''0''] 0)) ! i) = Finished"
proof -
  let ?A = "withNewMessage st Assistant ''A''"
  let ?B = "withNewMessage st Assistant ''B''"
  let ?ps = "[Num (1 / 2), Num (1 / 2)]"
  let ?init = "w\<lparr>completionTokens := completionTokens w\<rparr>"
  let ?w1 = "markFullyExpanded 0 (attachChildren 0 [''A'', ''B''] ?ps ?init)"
  let ?w' = "deliver scenarioOptions sd rnd w (i, Completion [CHR ''0'', CHR 0x0A, CHR ''0''] 0)"
  have len: "i < length (tasks w)" using rc i by (simp add: rootCounts_def)
  have p: "path (tasks w ! i) = [0]" using path_at [OF rc i] .
  have t1: "tasks ?w1 = tasks w"
    by (simp only: tasks_markFullyExpanded attachChildren_tasks) simp
  from ts consider
    (fresh) r where "finishedCount w = 0" "nodes w = [r]" "children r = []"
      "transpositionTable w (hash ?A) = None" "transpositionTable w (hash ?B) = None"
  | (again) r a b where "0 < finishedCount w" "nodes w = [r, a, b]"
      "children r = concat (replicate (finishedCount w) [1, 2])"
      "state a = ?A" "action a = Some ''A''" "action b = Some ''B''"
      "transpositionTable w (hash ?A) = Some 1" "transpositionTable w (hash ?B) = Some 2"
    by (auto simp add: treeShape_def)
  then have "(\<exists>r a b. nodes ?w1 = [r, a, b]
                \<and> children r = concat (replicate (Suc (finishedCount w)) [1, 2])
                \<and> state a = ?A \<and> action a = Some ''A'' \<and> action b = Some ''B'')
           \<and> transpositionTable ?w1 (hash ?A) = Some 1 \<and> transpositionTable ?w1 (hash ?B) = Some 2"
  proof cases
    case fresh
    have s: "state r = st" using root_state [OF rc fresh(2)] .
    have "nodes ?init = [r]" "transpositionTable ?init (hash ?A) = None"
      "transpositionTable ?init (hash ?B) = None" using fresh by simp_all
    from expand_first [OF this(1) fresh(3) s this(2,3), of ?ps]
    show ?thesis using fresh(1) by (simp add: markFullyExpanded_def newNode_def)
  next
    case again
    have s: "state r = st" using root_state [OF rc again(2)] .
    have "nodes ?init = [r, a, b]" "transpositionTable ?init (hash ?A) = Some 1"
      "transpositionTable ?init (hash ?B) = Some 2" using again by simp_all
    from expand_again [OF this(1) s this(2,3), of ?ps]
    show ?thesis using again(3,4,5,6,7,8)
      by (simp add: markFullyExpanded_def concat_replicate_Suc del: replicate_Suc)
  qed
  then obtain r a b where n1: "nodes ?w1 = [r, a, b]"
    and c1: "children r = concat (replicate (Suc (finishedCount w)) [1, 2])"
    and a1: "state a = ?A" "action a = Some ''A''" "action b = Some ''B''"
    and tb: "transpositionTable ?w1 (hash ?A) = Some 1" "transpositionTable ?w1 (hash ?B) = Some 2"
    by blast
  have hd1: "hd (children (nodes ?w1 ! 0)) = 1" using n1 c1 by simp
  have st1: "state (nodes ?w1 ! 1) = ?A" using n1 a1 by simp
  have w': "?w' = finishSimulation scenarioOptions i 0 (Num 0) ?w1"
    using len ph p hd1 st1
    by (simp add: deliver_def expandPriors_def simulateLoop_def del: attachChildren.simps)
  have p1: "path (tasks ?w1 ! i) = [0]" using p t1 by simp
  have fc: "finishedCount ?w' = Suc (finishedCount w)"
    unfolding w' finishSimulation_def
    using finishedCount_setPhase [of i "backpropagate scenarioOptions (path (tasks ?w1 ! i))
        (jdiv (Num 0) (Num (if (0::nat) = 0 then 1 else real (0::nat)))) ?w1" Finished] len ph t1
    by (simp add: finishedCount_def del: attachChildren.simps)
  have nodes': "\<exists>r'. nodes ?w' = [r', a, b] \<and> children r' = children r"
    unfolding w' finishSimulation_def p1
    using n1 by (simp add: backpropagate_def visitNode_def setPhase_def addVisit_def addRaveData_def
        del: attachChildren.simps)
  have table': "transpositionTable ?w' = transpositionTable ?w1"
    unfolding w' finishSimulation_def p1
    by (simp add: backpropagate_def visitNode_def setPhase_def del: attachChildren.simps)
  have phase': "phase (tasks ?w' ! i) = Finished"
    unfolding w' finishSimulation_def using len t1
    by (simp add: setPhase_def del: attachChildren.simps)
  have "treeShape st ?w'"
    unfolding treeShape_def using fc nodes' table' tb c1 a1 by auto
  then show ?thesis using phase' by simp
qed

lemma stub_step:
  assumes inv: "stubState st n w" and i: "i < n"
  shows "stubState st n (deliver scenarioOptions sd rnd w (i, stubOracle (phase (tasks w ! i))))
       \<and> repliesLeft (phase (tasks (deliver scenarioOptions sd rnd w
                                     (i, stubOracle (phase (tasks w ! i)))) ! i))
           = repliesLeft (phase (tasks w ! i)) - 1"
proof -
  let ?w' = "deliver scenarioOptions sd rnd w (i, stubOracle (phase (tasks w ! i)))"
  from inv have rc: "rootCounts st n w" and ts: "treeShape st w"
    and phs: "\<forall>j<n. stubPhase (phase (tasks w ! j))" by (simp_all add: stubState_def)
  have len: "length (tasks w) = n" using rc by (simp add: rootCounts_def)
  have rc': "rootCounts st n ?w'" using rc by (rule rootCounts_deliver)
  have others: "\<forall>j<n. j \<noteq> i \<longrightarrow> stubPhase (phase (tasks ?w' ! j))"
    using phs by (simp add: deliver_other_tasks)
  from phs i have "stubPhase (phase (tasks w ! i))" by simp
  then consider
    (first) "phase (tasks w ! i) = GenerateActions ExpandLeaf []"
  | (second) "phase (tasks w ! i) = GenerateActions ExpandLeaf [''A'']"
  | (priors) "phase (tasks w ! i) = CalculatePriors [''A'', ''B'']"
  | (finished) "phase (tasks w ! i) = Finished"
    by (auto simp add: stubPhase_def)
  then have "treeShape st ?w' \<and> stubPhase (phase (tasks ?w' ! i))
           \<and> repliesLeft (phase (tasks ?w' ! i)) = repliesLeft (phase (tasks w ! i)) - 1"
  proof cases
    case first
    then have w': "?w' = setPhase i (GenerateActions ExpandLeaf [''A''])
                          (w\<lparr>completionTokens := completionTokens w\<rparr>)"
      using i len by (simp add: deliver_def stubOracle_def generateActions_def)
    have "treeShape st ?w'"
      unfolding w' using ts first i len by (simp add: treeShape_setPhase)
    moreover have "phase (tasks ?w' ! i) = GenerateActions ExpandLeaf [''A'']"
      unfolding w' using i len by (simp add: setPhase_def)
    ultimately show ?thesis using first by (simp add: stubPhase_def repliesLeft_def)
  next
    case second
    then have w': "?w' = setPhase i (CalculatePriors [''A'', ''B''])
                          (w\<lparr>completionTokens := completionTokens w\<rparr>)"
      using i len by (simp add: deliver_def stubOracle_def generateActions_def expandActions_def)
    have "treeShape st ?w'"
      unfolding w' using ts second i len by (simp add: treeShape_setPhase)
    moreover have "phase (tasks ?w' ! i) = CalculatePriors [''A'', ''B'']"
      unfolding w' using i len by (simp add: setPhase_def)
    ultimately show ?thesis using second by (simp add: stubPhase_def repliesLeft_def)
  next
    case priors
    from priors_step [OF rc ts i priors, of sd rnd] priors
    show ?thesis by (simp add: stubOracle_def stubPhase_def repliesLeft_def)
  next
    case finished
    then have "?w' = w" using i len by (simp add: deliver_def)
    then show ?thesis using ts finished by (simp add: stubPhase_def repliesLeft_def)
  qed
  then show ?thesis using rc' others by (auto simp add: stubState_def)
qed

lemma stub_run:
  assumes "stubState st n w"
    and "\<forall>i<n. repliesLeft (phase (tasks w ! i)) \<le> count_list ids i"
  shows "stubState st n (foldl (deliver scenarioOptions sd rnd) w
                          (oracleSchedule scenarioOptions sd rnd stubOracle w ids))
       \<and> allFinished (foldl (deliver scenarioOptions sd rnd) w
                          (oracleSchedule scenarioOptions sd rnd stubOracle w ids))"
  using assms
proof (induction ids arbitrary: w)
  case Nil
  then have len: "length (tasks w) = n" and phs: "\<forall>i<n. stubPhase (phase (tasks w ! i))"
    by (simp_all add: stubState_def rootCounts_def)
  have "phase (tasks w ! i) = Finished" if "i < n" for i
    using Nil(2) [rule_format, OF that] phs [rule_format, OF that]
    by (auto simp add: stubPhase_def repliesLeft_def split: if_splits)
  then have "allFinished w" using len by (simp add: allFinished_def list_all_length)
  then show ?case using Nil(1) by simp
next
  case (Cons i ids)
  let ?w' = "deliver scenarioOptions sd rnd w (i, stubOracle (phase (tasks w ! i)))"
  have len: "length (tasks w) = n" using Cons.prems(1) by (simp add: stubState_def rootCounts_def)
  have "stubState st n ?w' \<and> (\<forall>j<n. repliesLeft (phase (tasks ?w' ! j)) \<le> count_list ids j)"
  proof (cases "i < n")
    case True
    from stub_step [OF Cons.prems(1) True, of sd rnd]
    have s: "stubState st n ?w'"
      and r: "repliesLeft (phase (tasks ?w' ! i)) = repliesLeft (phase (tasks w ! i)) - 1"
      by simp_all
    have "repliesLeft (phase (tasks ?w' ! j)) \<le> count_list ids j" if j: "j < n" for j
    proof (cases "j = i")
      case True
      then show ?thesis using r Cons.prems(2) j by auto
    next
      case False
      then show ?thesis using Cons.prems(2) j by (auto simp add: deliver_other_tasks)
    qed
    then show ?thesis using s by simp
  next
    case False
    then have "?w' = w" using len by (simp add: deliver_out_of_range)
    then show ?thesis using Cons.prems False by auto
  qed
  from Cons.IH [OF this [THEN conjunct1] this [THEN conjunct2]]
  show ?case by simp
qed

lemma stubState_start:
  assumes "\<not> isTerminal scenarioOptions st"
  shows "stubState st n ((initialSearch st)
           \<lparr>tasks := replicate n \<lparr>path = [0], phase = GenerateActions ExpandLeaf []\<rparr>\<rparr>)"
proof -
  let ?w = "(initialSearch st)\<lparr>tasks := replicate n \<lparr>path = [0], phase = GenerateActions ExpandLeaf []\<rparr>\<rparr>"
  have d: "depth st = 0" using assms by (simp add: isTerminal_def)
  have "rootCounts st n ?w"
    by (simp add: rootCounts_def finishedCount_def initialSearch_def newNode_def)
  moreover have "treeShape st ?w"
    by (simp add: treeShape_def finishedCount_def initialSearch_def newNode_def hash_def
          withNewMessage_def)
  moreover have "\<forall>i<n. stubPhase (phase (tasks ?w ! i))" by (simp add: stubPhase_def)
  ultimately show ?thesis by (simp add: stubState_def)
qed

lemma moreVisited_unvisited:
  "\<forall>c \<in> set cs. visits (nodes w ! c) = 0 \<Longrightarrow> foldl (moreVisited w) b cs = b"
  by (induction cs) (simp_all add: moreVisited_def)

lemma scenario_search:
  assumes nt: "\<not> isTerminal scenarioOptions st" and n: "0 < n"
    and ids: "\<forall>i<n. 3 \<le> count_list ids i"
  shows "\<exists>w r a b. runSearch scenarioOptions sd n rnd st
                 (answeredSchedule scenarioOptions sd n rnd stubOracle st ids) = Some w
           \<and> allFinished w
           \<and> nodes w = [r, a, b]
           \<and> children r = concat (replicate n [1, 2])
           \<and> action a = Some ''A'' \<and> action b = Some ''B''
           \<and> visits r = n \<and> visits a = 0 \<and> visits b = 0
           \<and> bestAction w = ''A''"
proof -
  let ?init = "(initialSearch st)\<lparr>tasks := replicate n \<lparr>path = [0], phase = GenerateActions ExpandLeaf []\<rparr>\<rparr>"
  let ?sched = "oracleSchedule scenarioOptions sd rnd stubOracle ?init ids"
  let ?w = "foldl (deliver scenarioOptions sd rnd) ?init ?sched"
  have start: "startSearch scenarioOptions sd n st = Some ?init"
    using startSearch_exact [of scenarioOptions st sd n] nt by simp
  have left: "\<forall>i<n. repliesLeft (phase (tasks ?init ! i)) \<le> count_list ids i"
    using ids by (simp add: repliesLeft_def)
  from stub_run [OF stubState_start [OF nt] left]
  have inv: "stubState st n ?w" and fin: "allFinished ?w" by simp_all
  have run: "runSearch scenarioOptions sd n rnd st
               (answeredSchedule scenarioOptions sd n rnd stubOracle st ids) = Some ?w"
    unfolding runSearch_def answeredSchedule_def start by simp
  from inv have rc: "rootCounts st n ?w" and ts: "treeShape st ?w" by (simp_all add: stubState_def)
  from fin have "filter (\<lambda>t. phase t = Finished) (tasks ?w) = tasks ?w"
    by (simp add: allFinished_def list_all_iff)
  then have fc: "finishedCount ?w = n" using rc by (simp add: finishedCount_def rootCounts_def)
  with ts n obtain r a b where nodes: "nodes ?w = [r, a, b]"
    and ch: "children r = concat (replicate n [1, 2])"
    and act: "action a = Some ''A''" "action b = Some ''B''"
    by (auto simp add: treeShape_def)
  from rc fc obtain k where k: "map visits (nodes ?w) = n # replicate k 0"
    by (auto simp add: rootCounts_def)
  then have "length (map visits (nodes ?w)) = length (n # replicate k 0)" by simp
  then have "k = Suc (Suc 0)" using nodes by simp
  with k nodes have vis: "visits r = n" "visits a = 0" "visits b = 0" by simp_all
  obtain m where m: "n = Suc m" using n by (cases n) auto
  have chs: "children (nodes ?w ! 0) = 1 # 2 # concat (replicate m [1, 2])"
    using nodes ch m by simp
  have "\<forall>c \<in> set (2 # concat (replicate m [1, 2])). visits (nodes ?w ! c) = 0"
    using nodes vis by auto
  then have "foldl (moreVisited ?w) 1 (2 # concat (replicate m [1, 2])) = 1"
    by (rule moreVisited_unvisited)
  then have best: "bestAction ?w = ''A''"
    unfolding bestAction_def chs using nodes act by simp
  show ?thesis using run fin nodes ch act vis best by blast
qed

lemma count_list_concat_replicate: "count_list (concat (replicate k xs)) x = k * count_list xs x"
  by (induction k) simp_all

lemma count_list_upt: "count_list [0..<n] i = (if i < n then 1 else 0)"
  by (induction n) auto

lemma roundRobin_count: "\<forall>i<n. 3 \<le> count_list (roundRobin 3 n) i"
  by (simp add: roundRobin_def count_list_concat_replicate count_list_upt)

lemma hi_not_terminal_scenario: "\<not> isTerminal scenarioOptions (create [] [] ''hi'')"
  by (simp add: isTerminal_def create_def toLowerCase_def lowerChar_def)

lemma goodbye_terminal: "isTerminal defaultOptions (create [] [] ''goodbye'')"
  by (simp add: isTerminal_def create_def toLowerCase_def lowerChar_def)

subsection \<open>The claims about a whole search\<close>

text \<open>
  Claim C10. When the initial state is terminal, every task returns at its first
  turn, so that no task ever waits for a call of the oracle: already the state after
  the first turns has all tasks finished. Under any schedule the search ends in that
  state, with the root as only node, no visit, no child, no token used and no random
  draw, and the result is the empty string.
\<close>

theorem terminal_root_search:
  assumes "isTerminal opts initialState"
  shows "\<exists>w. startSearch opts sd n initialState = Some w
           \<and> runSearch opts sd n rnd initialState schedule = Some w
           \<and> allFinished w
           \<and> w = (initialSearch initialState)\<lparr>tasks := replicate n \<lparr>path = [0], phase = Finished\<rparr>\<rparr>
           \<and> nodes w = [newNode initialState None None]
           \<and> map visits (nodes w) = [0]
           \<and> completionTokens w = 0 \<and> randomCalls w = 0
           \<and> findBestResponse opts sd n rnd initialState schedule = Some []"
proof -
  let ?w = "(initialSearch initialState)\<lparr>tasks := replicate n \<lparr>path = [0], phase = Finished\<rparr>\<rparr>"
  have fin: "allFinished ?w" by (simp add: allFinished_def list_all_length)
  have run: "runSearch opts sd n rnd initialState schedule = Some ?w"
    using assms by (rule runSearch_terminal)
  have "bestAction ?w = []" by (simp add: bestAction_def initialSearch_def newNode_def)
  then have "findBestResponse opts sd n rnd initialState schedule = Some []"
    using run fin by (simp add: findBestResponse_def)
  then show ?thesis
    using run fin startSearch_terminal [OF assms, of sd n]
    by (simp add: initialSearch_def newNode_def)
qed

theorem terminal_root_search_witness:
  "isTerminal defaultOptions (create [] [] ''goodbye'')
   \<and> runSearch defaultOptions 5 3 zeroDraws (create [] [] ''goodbye'')
        [(0, Completion ''A'' 1), (1, Failure)]
       = Some ((initialSearch (create [] [] ''goodbye''))
                \<lparr>tasks := replicate 3 \<lparr>path = [0], phase = Finished\<rparr>\<rparr>)
   \<and> findBestResponse defaultOptions 5 3 zeroDraws (create [] [] ''goodbye'')
        [(0, Completion ''A'' 1), (1, Failure)] = Some []"
  using terminal_root_search [OF goodbye_terminal, of 5 3 zeroDraws "[(0, Completion ''A'' 1), (1, Failure)]"]
    goodbye_terminal
  by auto

text \<open>
  Claim C1, as the code has it. When the initial state is not terminal, the search
  under any schedule has a state, and once all \<open>numSimulations\<close> tasks have returned
  the root's visit count is exactly \<open>numSimulations\<close>. When the initial state is
  terminal, the search ends with a root that was never visited.
\<close>

theorem root_visits_after_search:
  "(\<not> isTerminal opts initialState \<longrightarrow>
      (\<exists>w. runSearch opts sd n rnd initialState schedule = Some w
           \<and> (allFinished w \<longrightarrow> visits (nodes w ! 0) = n)))
   \<and> (isTerminal opts initialState \<longrightarrow>
      (\<exists>w. runSearch opts sd n rnd initialState schedule = Some w
           \<and> allFinished w \<and> visits (nodes w ! 0) = 0))"
proof (intro conjI impI)
  assume nt: "\<not> isTerminal opts initialState"
  from startSearch_nonterminal [OF nt] obtain w0
    where w0: "startSearch opts sd n initialState = Some w0" "rootCounts initialState n w0" by blast
  let ?w = "foldl (deliver opts sd rnd) w0 schedule"
  have "rootCounts initialState n ?w" using w0(2) by (rule rootCounts_run)
  then have "allFinished ?w \<longrightarrow> visits (nodes ?w ! 0) = n"
    using rootCounts_allFinished by blast
  moreover have "runSearch opts sd n rnd initialState schedule = Some ?w"
    by (simp add: runSearch_def w0(1))
  ultimately show "\<exists>w. runSearch opts sd n rnd initialState schedule = Some w
           \<and> (allFinished w \<longrightarrow> visits (nodes w ! 0) = n)" by blast
next
  assume t: "isTerminal opts initialState"
  show "\<exists>w. runSearch opts sd n rnd initialState schedule = Some w
           \<and> allFinished w \<and> visits (nodes w ! 0) = 0"
    by (simp add: runSearch_terminal [OF t] allFinished_def list_all_length initialSearch_def newNode_def)
qed

theorem root_visits_after_search_witness:
  "\<not> isTerminal scenarioOptions (create [] [] ''hi'')
   \<and> (\<exists>w. runSearch scenarioOptions 5 2 zeroDraws (create [] [] ''hi'')
              (answeredSchedule scenarioOptions 5 2 zeroDraws stubOracle (create [] [] ''hi'')
                 (roundRobin 3 2)) = Some w
          \<and> allFinished w \<and> visits (nodes w ! 0) = 2)
   \<and> isTerminal defaultOptions (create [] [] ''goodbye'')
   \<and> (\<exists>w. runSearch defaultOptions 5 2 zeroDraws (create [] [] ''goodbye'') [] = Some w
          \<and> allFinished w \<and> visits (nodes w ! 0) = 0)"
proof -
  let ?sched = "answeredSchedule scenarioOptions 5 2 zeroDraws stubOracle (create [] [] ''hi'')
                 (roundRobin 3 2)"
  from scenario_search [OF hi_not_terminal_scenario _ roundRobin_count, of 2 5 zeroDraws]
  obtain w where w: "runSearch scenarioOptions 5 2 zeroDraws (create [] [] ''hi'') ?sched = Some w"
    "allFinished w" by auto
  from root_visits_after_search [of scenarioOptions "create [] [] ''hi''" 5 2 zeroDraws ?sched]
    hi_not_terminal_scenario w
  have "visits (nodes w ! 0) = 2" by auto
  with w have a: "\<exists>w. runSearch scenarioOptions 5 2 zeroDraws (create [] [] ''hi'') ?sched = Some w
          \<and> allFinished w \<and> visits (nodes w ! 0) = 2" by blast
  from root_visits_after_search [of defaultOptions "create [] [] ''goodbye''" 5 2 zeroDraws "[]"]
    goodbye_terminal
  have b: "\<exists>w. runSearch defaultOptions 5 2 zeroDraws (create [] [] ''goodbye'') [] = Some w
          \<and> allFinished w \<and> visits (nodes w ! 0) = 0" by blast
  show ?thesis using hi_not_terminal_scenario goodbye_terminal a b by blast
qed

text \<open>
  The claim as stated fails for a terminal initial state: one simulation on the query
  \<open>goodbye\<close> completes, and the root's visit count is 0, not 1.
\<close>

theorem root_visits_counterexample:
  "runSearch defaultOptions 5 1 zeroDraws (create [] [] ''goodbye'') []
     = Some ((initialSearch (create [] [] ''goodbye''))\<lparr>tasks := [\<lparr>path = [0], phase = Finished\<rparr>]\<rparr>)
   \<and> allFinished ((initialSearch (create [] [] ''goodbye''))\<lparr>tasks := [\<lparr>path = [0], phase = Finished\<rparr>]\<rparr>)
   \<and> visits (nodes ((initialSearch (create [] [] ''goodbye''))
                      \<lparr>tasks := [\<lparr>path = [0], phase = Finished\<rparr>]\<rparr>) ! 0) = 0
   \<and> visits (nodes ((initialSearch (create [] [] ''goodbye''))
                      \<lparr>tasks := [\<lparr>path = [0], phase = Finished\<rparr>]\<rparr>) ! 0) \<noteq> 1"
  using runSearch_terminal [OF goodbye_terminal, of 5 1 zeroDraws "[]"]
  by (simp add: allFinished_def initialSearch_def newNode_def)

text \<open>
  Claim C2 (in the scenario the child for \<open>A\<close> ends with strictly more visits than the
  child for \<open>B\<close>). In the scenario with 20 simulations, whatever the order in which the
  tasks get their turns, as long as each gets the three replies it needs: the search
  completes, the root has 20 visits, and the children for \<open>A\<close> and for \<open>B\<close> both have
  no visit at all. The result is \<open>A\<close> only because it is the first child.
\<close>

theorem scenario_children_unvisited:
  assumes "\<not> isTerminal scenarioOptions st" and "\<forall>i<20. 3 \<le> count_list ids i"
  shows "\<exists>w r a b. runSearch scenarioOptions sd 20 rnd st
                 (answeredSchedule scenarioOptions sd 20 rnd stubOracle st ids) = Some w
           \<and> allFinished w
           \<and> nodes w = [r, a, b]
           \<and> action a = Some ''A'' \<and> action b = Some ''B''
           \<and> visits r = 20 \<and> visits a = 0 \<and> visits b = 0
           \<and> \<not> visits b < visits a
           \<and> findBestResponse scenarioOptions sd 20 rnd st
                 (answeredSchedule scenarioOptions sd 20 rnd stubOracle st ids) = Some ''A''"
proof -
  from scenario_search [OF assms(1) _ assms(2), of sd rnd]
  obtain w r a b where w: "runSearch scenarioOptions sd 20 rnd st
                 (answeredSchedule scenarioOptions sd 20 rnd stubOracle st ids) = Some w"
    "allFinished w" "nodes w = [r, a, b]" "action a = Some ''A''" "action b = Some ''B''"
    "visits r = 20" "visits a = 0" "visits b = 0" "bestAction w = ''A''"
    by auto
  then have "findBestResponse scenarioOptions sd 20 rnd st
                 (answeredSchedule scenarioOptions sd 20 rnd stubOracle st ids) = Some ''A''"
    by (simp add: findBestResponse_def)
  with w show ?thesis by auto
qed

theorem scenario_children_unvisited_witness:
  "\<not> isTerminal scenarioOptions (create [] [] ''hi'')
   \<and> (\<exists>w r a b. runSearch scenarioOptions 5 20 zeroDraws (create [] [] ''hi'')
                 (answeredSchedule scenarioOptions 5 20 zeroDraws stubOracle (create [] [] ''hi'')
                    (roundRobin 3 20)) = Some w
           \<and> allFinished w
           \<and> nodes w = [r, a, b]
           \<and> action a = Some ''A'' \<and> action b = Some ''B''
           \<and> visits r = 20 \<and> visits a = 0 \<and> visits b = 0)"
  using scenario_children_unvisited [OF hi_not_terminal_scenario roundRobin_count, of 5 zeroDraws]
    hi_not_terminal_scenario
  by blast

text \<open>
  Claim C3 (a node is expanded exactly once, its child list gets no duplicates). In
  the scenario with \<open>n\<close> simulations, whatever the order of the turns, every one of the
  \<open>n\<close> tasks expands the root: the root's child list ends as the pair of children
  repeated \<open>n\<close> times.
\<close>

theorem root_expanded_by_every_simulation:
  assumes "\<not> isTerminal scenarioOptions st" and "0 < n" and "\<forall>i<n. 3 \<le> count_list ids i"
  shows "\<exists>w r a b. runSearch scenarioOptions sd n rnd st
                 (answeredSchedule scenarioOptions sd n rnd stubOracle st ids) = Some w
           \<and> allFinished w
           \<and> nodes w = [r, a, b]
           \<and> children r = concat (replicate n [1, 2])
           \<and> length (children r) = 2 * n"
proof -
  from scenario_search [OF assms, of sd rnd]
  obtain w r a b where w: "runSearch scenarioOptions sd n rnd st
                 (answeredSchedule scenarioOptions sd n rnd stubOracle st ids) = Some w"
    "allFinished w" "nodes w = [r, a, b]" "children r = concat (replicate n [1, 2])"
    by auto
  have "length (concat (replicate n [1, 2 :: nat])) = 2 * n"
    by (induction n) simp_all
  with w show ?thesis by auto
qed

theorem root_expanded_by_every_simulation_witness:
  "\<not> isTerminal scenarioOptions (create [] [] ''hi'')
   \<and> (\<exists>w r a b. runSearch scenarioOptions 5 2 zeroDraws (create [] [] ''hi'')
                 (answeredSchedule scenarioOptions 5 2 zeroDraws stubOracle (create [] [] ''hi'')
                    (roundRobin 3 2)) = Some w
           \<and> allFinished w
           \<and> nodes w = [r, a, b]
           \<and> children r = [1, 2, 1, 2]
           \<and> \<not> distinct (children r))"
proof -
  from root_expanded_by_every_simulation
         [OF hi_not_terminal_scenario _ roundRobin_count, of 2 5 zeroDraws]
  obtain w r a b where w: "runSearch scenarioOptions 5 2 zeroDraws (create [] [] ''hi'')
                 (answeredSchedule scenarioOptions 5 2 zeroDraws stubOracle (create [] [] ''hi'')
                    (roundRobin 3 2)) = Some w"
    "allFinished w" "nodes w = [r, a, b]" "children r = concat (replicate 2 [1, 2])"
    by auto
  have "concat (replicate 2 [1, 2 :: nat]) = [1, 2, 1, 2]" by (simp add: numeral_2_eq_2)
  with w have "children r = [1, 2, 1, 2]" "\<not> distinct (children r)" by simp_all
  with w show ?thesis using hi_not_terminal_scenario by blast
qed

end
